theory Spec2Isabelle
  imports Main "HOL-Library.Word" "HOL-Library.DAList" "HOL-Library.Multiset"
begin

section \<open>Handles: addresses, indices and storage ids\<close>

text \<open>
  The Go source declares \<^verbatim>\<open>Address [8]byte\<close>, \<^verbatim>\<open>StorageIndex [8]byte\<close> and
  \<^verbatim>\<open>StorageID struct { Address; Index }\<close>. A fixed array of eight bytes is a datatype with
  eight byte fields, so that two arrays are equal exactly when all their bytes are (Go's
  \<^verbatim>\<open>==\<close> on arrays). A \<^verbatim>\<open>uint64\<close> is a \<open>64 word\<close>: \<open>+\<close> wraps around.
\<close>

type_synonym byte = "8 word"
type_synonym uint64 = "64 word"

datatype bytes8 = Bytes8 byte byte byte byte byte byte byte byte

type_synonym Address = bytes8
type_synonym StorageIndex = bytes8

fun bytes_of :: "bytes8 \<Rightarrow> byte list" where
  "bytes_of (Bytes8 a b c d e f g h) = [a, b, c, d, e, f, g, h]"

text \<open>
  \<^verbatim>\<open>binary.BigEndian.Uint64\<close> and \<^verbatim>\<open>binary.BigEndian.PutUint64\<close> belong to Go's standard
  library: the first byte is the most significant one.
\<close>

fun le_nat :: "byte list \<Rightarrow> nat" where
  "le_nat [] = 0"
| "le_nat (b # bs) = unat b + 256 * le_nat bs"

definition be_nat :: "byte list \<Rightarrow> nat" where
  "be_nat bs = le_nat (rev bs)"

definition BigEndian_Uint64 :: "bytes8 \<Rightarrow> uint64" where
  "BigEndian_Uint64 x = word_of_nat (be_nat (bytes_of x))"

definition byte_at :: "nat \<Rightarrow> nat \<Rightarrow> byte" where
  "byte_at k n = word_of_nat (n div 256 ^ k)"

definition BigEndian_PutUint64 :: "uint64 \<Rightarrow> bytes8" where
  "BigEndian_PutUint64 v =
     (let n = unat v in
      Bytes8 (byte_at 7 n) (byte_at 6 n) (byte_at 5 n) (byte_at 4 n)
             (byte_at 3 n) (byte_at 2 n) (byte_at 1 n) (byte_at 0 n))"

datatype StorageID = StorageID (Address: Address) (Index: StorageIndex)

definition AddressAsUint64 :: "StorageID \<Rightarrow> uint64" where
  "AddressAsUint64 sid = BigEndian_Uint64 (Address sid)"

definition IndexAsUint64 :: "StorageID \<Rightarrow> uint64" where
  "IndexAsUint64 sid = BigEndian_Uint64 (Index sid)"

definition AddressUndefined :: Address where
  "AddressUndefined = Bytes8 0 0 0 0 0 0 0 0"

definition StorageIndexUndefined :: StorageIndex where
  "StorageIndexUndefined = Bytes8 0 0 0 0 0 0 0 0"

definition StorageIDUndefined :: StorageID where
  "StorageIDUndefined = StorageID AddressUndefined StorageIndexUndefined"

text \<open>\<^verbatim>\<open>StorageIndex.Next\<close>: read big-endian, add one (a \<^verbatim>\<open>uint64\<close> addition), write back.\<close>

definition Next :: "StorageIndex \<Rightarrow> StorageIndex" where
  "Next index = (let i = BigEndian_Uint64 index in BigEndian_PutUint64 (i + 1))"

definition NewStorageID :: "Address \<Rightarrow> StorageIndex \<Rightarrow> StorageID" where
  "NewStorageID address index = StorageID address index"

section \<open>Go maps and slices\<close>

text \<open>
  A Go \<^verbatim>\<open>map[K]V\<close> is an association list with distinct keys (\<open>('k, 'v) alist\<close>): the
  order of the list is the order in which a \<^verbatim>\<open>range\<close> loop happens to visit the keys, which
  Go leaves unspecified, so every property below is proved for every such order.
  Reading a missing key gives the zero value of \<^verbatim>\<open>V\<close>. A \<^verbatim>\<open>Slab\<close> is an interface value:
  \<open>None\<close> is \<^verbatim>\<open>nil\<close>. A \<^verbatim>\<open>[]byte\<close> is \<open>None\<close> when it is the \<^verbatim>\<open>nil\<close> slice.
\<close>

type_synonym bytes = "byte list option"

definition len_bytes :: "bytes \<Rightarrow> nat" where
  "len_bytes data = (case data of None \<Rightarrow> 0 | Some bs \<Rightarrow> length bs)"

definition range_keys :: "('k, 'v) alist \<Rightarrow> 'k list" where
  "range_keys m = map fst (DAList.impl_of m)"

definition index_or_nil :: "('k, 'v option) alist \<Rightarrow> 'k \<Rightarrow> 'v option" where
  "index_or_nil m k = (case DAList.lookup m k of None \<Rightarrow> None | Some v \<Rightarrow> v)"

text \<open>
  \<^verbatim>\<open>sort.Slice(xs, lt)\<close> is Go's standard library: it permutes \<open>xs\<close> so that it is
  sorted by \<open>lt\<close>. The library uses insertion sort on short slices; the model is insertion
  sort throughout. On distinct keys under a strict total order the result is the same
  for every sorting algorithm.
\<close>

fun insert_by :: "('a \<Rightarrow> 'a \<Rightarrow> bool) \<Rightarrow> 'a \<Rightarrow> 'a list \<Rightarrow> 'a list" where
  "insert_by lt x [] = [x]"
| "insert_by lt x (y # ys) = (if lt x y then x # y # ys else y # insert_by lt x ys)"

definition sort_Slice :: "('a \<Rightarrow> 'a \<Rightarrow> bool) \<Rightarrow> 'a list \<Rightarrow> 'a list" where
  "sort_Slice lt xs = foldr (insert_by lt) xs []"


section \<open>The base storage\<close>

text \<open>
  \<^verbatim>\<open>BaseStorage\<close> is an interface. An implementation is a state of type \<open>'b\<close> with
  one function per method that the slab storage calls; each takes the state and returns
  Go's results together with the new state. A Go \<^verbatim>\<open>error\<close> is \<open>'e option\<close>, \<open>None\<close>
  being \<^verbatim>\<open>nil\<close>.
\<close>

record ('b, 'e) BaseStorage =
  bs_Store :: "StorageID \<Rightarrow> bytes \<Rightarrow> 'b \<Rightarrow> 'e option \<times> 'b"
  bs_Retrieve :: "StorageID \<Rightarrow> 'b \<Rightarrow> (bytes \<times> bool \<times> 'e option) \<times> 'b"
  bs_Remove :: "StorageID \<Rightarrow> 'b \<Rightarrow> 'e option \<times> 'b"
  bs_GenerateStorageID :: "Address \<Rightarrow> 'b \<Rightarrow> (StorageID \<times> 'e option) \<times> 'b"
  bs_SegmentCounts :: "'b \<Rightarrow> int"

subsection \<open>InMemBaseStorage\<close>

record InMemBaseStorage =
  segments :: "(StorageID, bytes) alist"
  storageIndex :: "(Address, StorageIndex) alist"
  bytesRetrieved :: int
  bytesStored :: int
  segmentsReturned :: "StorageID set"
  segmentsUpdated :: "StorageID set"
  segmentsTouched :: "StorageID set"

definition NewInMemBaseStorageFromMap :: "(StorageID, bytes) alist \<Rightarrow> InMemBaseStorage" where
  "NewInMemBaseStorageFromMap segs =
     \<lparr>segments = segs, storageIndex = DAList.empty, bytesRetrieved = 0, bytesStored = 0,
      segmentsReturned = {}, segmentsUpdated = {}, segmentsTouched = {}\<rparr>"

definition NewInMemBaseStorage :: InMemBaseStorage where
  "NewInMemBaseStorage = NewInMemBaseStorageFromMap DAList.empty"

definition InMem_Retrieve ::
  "StorageID \<Rightarrow> InMemBaseStorage \<Rightarrow> (bytes \<times> bool \<times> 'e option) \<times> InMemBaseStorage" where
  "InMem_Retrieve sid s =
     (let seg = index_or_nil (segments s) sid;
          ok = (DAList.lookup (segments s) sid \<noteq> None)
      in ((seg, ok, None),
          s\<lparr>bytesRetrieved := bytesRetrieved s + int (len_bytes seg),
            segmentsReturned := insert sid (segmentsReturned s),
            segmentsTouched := insert sid (segmentsTouched s)\<rparr>))"

definition InMem_Store ::
  "StorageID \<Rightarrow> bytes \<Rightarrow> InMemBaseStorage \<Rightarrow> 'e option \<times> InMemBaseStorage" where
  "InMem_Store sid data s =
     (None,
      s\<lparr>segments := DAList.update sid data (segments s),
        bytesStored := bytesStored s + int (len_bytes data),
        segmentsUpdated := insert sid (segmentsUpdated s),
        segmentsTouched := insert sid (segmentsTouched s)\<rparr>)"

definition InMem_Remove :: "StorageID \<Rightarrow> InMemBaseStorage \<Rightarrow> 'e option \<times> InMemBaseStorage" where
  "InMem_Remove sid s =
     (None,
      s\<lparr>segmentsUpdated := insert sid (segmentsUpdated s),
        segmentsTouched := insert sid (segmentsTouched s),
        segments := DAList.delete sid (segments s)\<rparr>)"

definition InMem_GenerateStorageID ::
  "Address \<Rightarrow> InMemBaseStorage \<Rightarrow> (StorageID \<times> 'e option) \<times> InMemBaseStorage" where
  "InMem_GenerateStorageID address s =
     (let index = (case DAList.lookup (storageIndex s) address of
                     None \<Rightarrow> StorageIndexUndefined | Some i \<Rightarrow> i);
          nextIndex = Next index
      in ((NewStorageID address nextIndex, None),
          s\<lparr>storageIndex := DAList.update address nextIndex (storageIndex s)\<rparr>))"

definition InMem_SegmentCounts :: "InMemBaseStorage \<Rightarrow> int" where
  "InMem_SegmentCounts s = int (length (DAList.impl_of (segments s)))"

definition InMemBaseStorage_impl :: "(InMemBaseStorage, 'e) BaseStorage" where
  "InMemBaseStorage_impl =
     \<lparr>bs_Store = InMem_Store, bs_Retrieve = InMem_Retrieve, bs_Remove = InMem_Remove,
      bs_GenerateStorageID = InMem_GenerateStorageID, bs_SegmentCounts = InMem_SegmentCounts\<rparr>"

subsection \<open>Observing the calls made on a base storage\<close>

text \<open>
  To speak about the sequence of calls that reach the base storage, any implementation
  is wrapped into one that also appends every \<^verbatim>\<open>Store\<close> and \<^verbatim>\<open>Remove\<close> call, with the
  error it returned, to a log.
\<close>

datatype base_call = CallStore StorageID bytes | CallRemove StorageID

fun call_id :: "base_call \<Rightarrow> StorageID" where
  "call_id (CallStore sid data) = sid"
| "call_id (CallRemove sid) = sid"

definition logged :: "('b, 'e) BaseStorage \<Rightarrow> ('b \<times> (base_call \<times> 'e option) list, 'e) BaseStorage" where
  "logged B =
     \<lparr>bs_Store = (\<lambda>sid data (b, log).
        case bs_Store B sid data b of (err, b') \<Rightarrow> (err, (b', log @ [(CallStore sid data, err)]))),
      bs_Retrieve = (\<lambda>sid (b, log). case bs_Retrieve B sid b of (r, b') \<Rightarrow> (r, (b', log))),
      bs_Remove = (\<lambda>sid (b, log).
        case bs_Remove B sid b of (err, b') \<Rightarrow> (err, (b', log @ [(CallRemove sid, err)]))),
      bs_GenerateStorageID = (\<lambda>address (b, log).
        case bs_GenerateStorageID B address b of (r, b') \<Rightarrow> (r, (b', log))),
      bs_SegmentCounts = (\<lambda>(b, log). bs_SegmentCounts B b)\<rparr>"

section \<open>PersistentSlabStorage\<close>

text \<open>
  The fields \<^verbatim>\<open>cborEncMode\<close>, \<^verbatim>\<open>cborDecMode\<close>, \<^verbatim>\<open>DecodeStorable\<close> and \<^verbatim>\<open>DecodeTypeInfo\<close>
  are set once by the constructor and only handed to \<^verbatim>\<open>Encode\<close> and \<^verbatim>\<open>DecodeSlab\<close>.
  Neither function is part of the storage source: below, \<open>Encode\<close> stands for
  \<^verbatim>\<open>Encode(slab, s.cborEncMode)\<close> and \<open>DecodeSlab\<close> for
  \<^verbatim>\<open>DecodeSlab(id, data, s.cborDecMode, s.DecodeStorable, s.DecodeTypeInfo)\<close>, and every
  theorem holds for every choice of the two.
\<close>

type_synonym 'slab Slab = "'slab option"

record ('slab, 'b) PersistentSlabStorage =
  baseStorage :: 'b
  cache :: "(StorageID, 'slab Slab) alist"
  deltas :: "(StorageID, 'slab Slab) alist"
  tempStorageIndex :: uint64
  autoCommit :: bool

definition WithAutoCommit ::
  "('slab, 'b) PersistentSlabStorage \<Rightarrow> ('slab, 'b) PersistentSlabStorage" where
  "WithAutoCommit st = st\<lparr>autoCommit := True\<rparr>"

definition NewPersistentSlabStorage ::
  "'b \<Rightarrow> (('slab, 'b) PersistentSlabStorage \<Rightarrow> ('slab, 'b) PersistentSlabStorage) list
     \<Rightarrow> ('slab, 'b) PersistentSlabStorage" where
  "NewPersistentSlabStorage base opts =
     fold (\<lambda>applyOption storage. applyOption storage) opts
       \<lparr>baseStorage = base, cache = DAList.empty, deltas = DAList.empty,
        tempStorageIndex = 0, autoCommit = False\<rparr>"

definition GenerateStorageID ::
  "('b, 'e) BaseStorage \<Rightarrow> Address \<Rightarrow> ('slab, 'b) PersistentSlabStorage
     \<Rightarrow> (StorageID \<times> 'e option) \<times> ('slab, 'b) PersistentSlabStorage" where
  "GenerateStorageID B address s =
     (if address = AddressUndefined then
        (let s' = s\<lparr>tempStorageIndex := tempStorageIndex s + 1\<rparr>;
             idx = BigEndian_PutUint64 (tempStorageIndex s')
         in ((NewStorageID address idx, None), s'))
      else
        (case bs_GenerateStorageID B address (baseStorage s) of
           (r, b') \<Rightarrow> (r, s\<lparr>baseStorage := b'\<rparr>)))"

text \<open>The comparison function handed to \<^verbatim>\<open>sort.Slice\<close> in \<^verbatim>\<open>sortedOwnedDeltaKeys\<close>.\<close>

definition less_StorageID :: "StorageID \<Rightarrow> StorageID \<Rightarrow> bool" where
  "less_StorageID a b =
     (if Address a = Address b then IndexAsUint64 a < IndexAsUint64 b
      else AddressAsUint64 a < AddressAsUint64 b)"

definition sortedOwnedDeltaKeys :: "('slab, 'b) PersistentSlabStorage \<Rightarrow> StorageID list" where
  "sortedOwnedDeltaKeys s =
     (let keysWithOwners = filter (\<lambda>k. Address k \<noteq> AddressUndefined) (range_keys (deltas s))
      in sort_Slice less_StorageID keysWithOwners)"

text \<open>The body of the loop of \<^verbatim>\<open>Commit\<close>, from the first remaining key on.\<close>

fun commit_loop ::
  "('b, 'e) BaseStorage \<Rightarrow> ('slab Slab \<Rightarrow> bytes \<times> 'e option) \<Rightarrow> StorageID list
     \<Rightarrow> ('slab, 'b) PersistentSlabStorage \<Rightarrow> 'e option \<times> ('slab, 'b) PersistentSlabStorage" where
  "commit_loop B Encode [] s = (None, s)"
| "commit_loop B Encode (sid # ids) s =
     (let slab = index_or_nil (deltas s) sid in
      if slab = None then
        (case bs_Remove B sid (baseStorage s) of
           (Some e, b') \<Rightarrow> (Some e, s\<lparr>baseStorage := b'\<rparr>)
         | (None, b') \<Rightarrow> commit_loop B Encode ids (s\<lparr>baseStorage := b'\<rparr>))
      else
        (case Encode slab of
           (data, Some e) \<Rightarrow> (Some e, s)
         | (data, None) \<Rightarrow>
             (case bs_Store B sid data (baseStorage s) of
                (Some e, b') \<Rightarrow> (Some e, s\<lparr>baseStorage := b'\<rparr>)
              | (None, b') \<Rightarrow>
                  commit_loop B Encode ids
                    (s\<lparr>baseStorage := b', cache := DAList.update sid slab (cache s)\<rparr>))))"

definition Commit ::
  "('b, 'e) BaseStorage \<Rightarrow> ('slab Slab \<Rightarrow> bytes \<times> 'e option)
     \<Rightarrow> ('slab, 'b) PersistentSlabStorage \<Rightarrow> 'e option \<times> ('slab, 'b) PersistentSlabStorage" where
  "Commit B Encode s =
     (let keysWithOwners = sortedOwnedDeltaKeys s in
      case commit_loop B Encode keysWithOwners s of
        (Some e, s') \<Rightarrow> (Some e, s')
      | (None, s') \<Rightarrow> (None, s'\<lparr>deltas := DAList.empty\<rparr>))"


subsection \<open>FastCommit\<close>

text \<open>
  \<^verbatim>\<open>FastCommit\<close> queues the sorted keys as jobs, starts \<^verbatim>\<open>numWorkers\<close> goroutines that
  encode the queued slabs, receives exactly one result per key, and only then calls the base
  storage, key by key in sorted order. The goroutines act on the state only by the
  results they send, so they are modelled by those results: \<open>arrival\<close> is the order in which
  the results are received, a permutation of the keys that the scheduler chooses.
  Without any worker and with at least one key the first receive blocks for
  ever: the function does not return, which is the value \<open>None\<close>.
  When a result carries an error the function returns at once, and its deferred
  \<^verbatim>\<open>close(results)\<close> can meet a worker that is still sending, which is a panic in Go; the
  model describes the executions in which every result was sent before.
\<close>

definition encoder ::
  "('slab Slab \<Rightarrow> bytes \<times> 'e option) \<Rightarrow> (StorageID, 'slab Slab) alist \<Rightarrow> StorageID
     \<Rightarrow> StorageID \<times> bytes \<times> 'e option" where
  "encoder Encode ds sid =
     (let slab = index_or_nil ds sid in
      if slab = None then (sid, None, None)
      else (case Encode slab of (data, err) \<Rightarrow> (sid, data, err)))"

fun collect_results ::
  "(StorageID \<times> bytes \<times> 'e option) list \<Rightarrow> (StorageID, bytes) alist
     \<Rightarrow> 'e + (StorageID, bytes) alist" where
  "collect_results [] encSlabByID = Inr encSlabByID"
| "collect_results ((sid, data, err) # results) encSlabByID =
     (case err of
        Some e \<Rightarrow> Inl e
      | None \<Rightarrow> collect_results results (DAList.update sid data encSlabByID))"

fun fast_commit_loop ::
  "('b, 'e) BaseStorage \<Rightarrow> (StorageID, bytes) alist \<Rightarrow> StorageID list
     \<Rightarrow> ('slab, 'b) PersistentSlabStorage \<Rightarrow> 'e option \<times> ('slab, 'b) PersistentSlabStorage" where
  "fast_commit_loop B encSlabByID [] s = (None, s)"
| "fast_commit_loop B encSlabByID (sid # ids) s =
     (let data = index_or_nil encSlabByID sid in
      if data = None then
        (case bs_Remove B sid (baseStorage s) of
           (Some e, b') \<Rightarrow> (Some e, s\<lparr>baseStorage := b'\<rparr>)
         | (None, b') \<Rightarrow> fast_commit_loop B encSlabByID ids (s\<lparr>baseStorage := b'\<rparr>))
      else
        (case bs_Store B sid data (baseStorage s) of
           (Some e, b') \<Rightarrow> (Some e, s\<lparr>baseStorage := b'\<rparr>)
         | (None, b') \<Rightarrow>
             fast_commit_loop B encSlabByID ids
               (s\<lparr>baseStorage := b',
                  cache := DAList.update sid (index_or_nil (deltas s) sid) (cache s)\<rparr>)))"

definition FastCommit ::
  "('b, 'e) BaseStorage \<Rightarrow> ('slab Slab \<Rightarrow> bytes \<times> 'e option) \<Rightarrow> int \<Rightarrow> StorageID list
     \<Rightarrow> ('slab, 'b) PersistentSlabStorage
     \<Rightarrow> ('e option \<times> ('slab, 'b) PersistentSlabStorage) option" where
  "FastCommit B Encode numWorkers arrival s =
     (let keysWithOwners = sortedOwnedDeltaKeys s in
      if keysWithOwners \<noteq> [] \<and> numWorkers \<le> 0 then None
      else Some
        (case collect_results (map (encoder Encode (deltas s)) arrival) DAList.empty of
           Inl e \<Rightarrow> (Some e, s)
         | Inr encSlabByID \<Rightarrow>
             (case fast_commit_loop B encSlabByID keysWithOwners s of
                (Some e, s') \<Rightarrow> (Some e, s')
              | (None, s') \<Rightarrow> (None, s'\<lparr>deltas := DAList.empty\<rparr>))))"

subsection \<open>Retrieve, Store, Remove, Count\<close>

definition DropDeltas :: "('slab, 'b) PersistentSlabStorage \<Rightarrow> ('slab, 'b) PersistentSlabStorage" where
  "DropDeltas s = s\<lparr>deltas := DAList.empty\<rparr>"

definition DropCache :: "('slab, 'b) PersistentSlabStorage \<Rightarrow> ('slab, 'b) PersistentSlabStorage" where
  "DropCache s = s\<lparr>cache := DAList.empty\<rparr>"

definition Retrieve ::
  "('b, 'e) BaseStorage \<Rightarrow> (StorageID \<Rightarrow> bytes \<Rightarrow> 'slab Slab \<times> 'e option) \<Rightarrow> StorageID
     \<Rightarrow> ('slab, 'b) PersistentSlabStorage
     \<Rightarrow> ('slab Slab \<times> bool \<times> 'e option) \<times> ('slab, 'b) PersistentSlabStorage" where
  "Retrieve B DecodeSlab sid s =
     (case DAList.lookup (deltas s) sid of
        Some slab \<Rightarrow> ((slab, slab \<noteq> None, None), s)
      | None \<Rightarrow>
          (case DAList.lookup (cache s) sid of
             Some slab \<Rightarrow> ((slab, True, None), s)
           | None \<Rightarrow>
               (case bs_Retrieve B sid (baseStorage s) of
                  ((data, ok, Some e), b') \<Rightarrow> ((None, False, Some e), s\<lparr>baseStorage := b'\<rparr>)
                | ((data, ok, None), b') \<Rightarrow>
                    (case DecodeSlab sid data of
                       (slab, None) \<Rightarrow>
                         ((slab, ok, None),
                          s\<lparr>baseStorage := b', cache := DAList.update sid slab (cache s)\<rparr>)
                     | (slab, Some e) \<Rightarrow> ((slab, ok, Some e), s\<lparr>baseStorage := b'\<rparr>)))))"

definition Store ::
  "('b, 'e) BaseStorage \<Rightarrow> ('slab Slab \<Rightarrow> bytes \<times> 'e option) \<Rightarrow> StorageID \<Rightarrow> 'slab Slab
     \<Rightarrow> ('slab, 'b) PersistentSlabStorage \<Rightarrow> 'e option \<times> ('slab, 'b) PersistentSlabStorage" where
  "Store B Encode sid slab s =
     (if autoCommit s then
        (case Encode slab of
           (data, Some e) \<Rightarrow> (Some e, s)
         | (data, None) \<Rightarrow>
             (case bs_Store B sid data (baseStorage s) of
                (Some e, b') \<Rightarrow> (Some e, s\<lparr>baseStorage := b'\<rparr>)
              | (None, b') \<Rightarrow>
                  (None, s\<lparr>baseStorage := b', cache := DAList.update sid slab (cache s)\<rparr>)))
      else (None, s\<lparr>deltas := DAList.update sid slab (deltas s)\<rparr>))"

definition Remove ::
  "('b, 'e) BaseStorage \<Rightarrow> StorageID \<Rightarrow> ('slab, 'b) PersistentSlabStorage
     \<Rightarrow> 'e option \<times> ('slab, 'b) PersistentSlabStorage" where
  "Remove B sid s =
     (if autoCommit s then
        (case bs_Remove B sid (baseStorage s) of
           (Some e, b') \<Rightarrow> (Some e, s\<lparr>baseStorage := b'\<rparr>)
         | (None, b') \<Rightarrow>
             (None, s\<lparr>baseStorage := b', deltas := DAList.update sid None (deltas s)\<rparr>))
      else (None, s\<lparr>deltas := DAList.update sid None (deltas s)\<rparr>))"

definition Count :: "('b, 'e) BaseStorage \<Rightarrow> ('slab, 'b) PersistentSlabStorage \<Rightarrow> int" where
  "Count B s = bs_SegmentCounts B (baseStorage s)"

section \<open>The default digester\<close>

text \<open>
  \<^verbatim>\<open>NewHashLevelErrorf\<close> and \<^verbatim>\<open>NewHashSeedUninitializedError\<close> build error values; the
  first is given a format string with the level asked for and the number of levels.
  \<^verbatim>\<open>circlehash.Hash64\<close> and \<^verbatim>\<open>blake3.Sum256\<close> are external libraries, and the hash input
  provider is a callback: all three are parameters. A \<^verbatim>\<open>uint\<close> level is a natural number.
\<close>

type_synonym Digest = uint64

datatype 'x digest_error =
    HashLevelError nat nat
  | HashSeedUninitializedError
  | ExternalError 'x

record basicDigesterBuilder =
  k0 :: uint64
  k1 :: uint64

datatype uint64x4 = Uint64x4 uint64 uint64 uint64 uint64

datatype bytes32 = Bytes32 bytes8 bytes8 bytes8 bytes8

fun at4 :: "uint64x4 \<Rightarrow> nat \<Rightarrow> uint64" where
  "at4 (Uint64x4 a b c d) i = (if i = 0 then a else if i = 1 then b else if i = 2 then c else d)"

record basicDigester =
  circleHash64 :: uint64
  blake3Hash :: uint64x4
  scratch :: "byte list"
  msg :: bytes

definition emptyBlake3Hash :: uint64x4 where
  "emptyBlake3Hash = Uint64x4 0 0 0 0"

definition newBasicDigesterBuilder :: basicDigesterBuilder where
  "newBasicDigesterBuilder = \<lparr>k0 = 0, k1 = 0\<rparr>"

definition SetSeed :: "uint64 \<Rightarrow> uint64 \<Rightarrow> basicDigesterBuilder \<Rightarrow> basicDigesterBuilder" where
  "SetSeed a b bdb = bdb\<lparr>k0 := a, k1 := b\<rparr>"

definition Reset :: "basicDigester \<Rightarrow> basicDigester" where
  "Reset bd = bd\<lparr>circleHash64 := 0, blake3Hash := emptyBlake3Hash, msg := None\<rparr>"

text \<open>
  \<^verbatim>\<open>basicDigesterBuilder.Digest\<close>. The digester comes from a pool: \<open>pooled\<close> is the
  object that the pool hands out, a new one or one that was reset.
\<close>

definition build_Digest ::
  "(bytes \<Rightarrow> uint64 \<Rightarrow> uint64) \<Rightarrow> ('v \<Rightarrow> byte list \<Rightarrow> bytes \<times> 'x option) \<Rightarrow> basicDigester
     \<Rightarrow> basicDigesterBuilder \<Rightarrow> 'v \<Rightarrow> basicDigester option \<times> 'x digest_error option" where
  "build_Digest circlehash_Hash64 hip pooled bdb v =
     (if k0 bdb = 0 then (None, Some HashSeedUninitializedError)
      else
        (case hip v (scratch pooled) of
           (m, Some err) \<Rightarrow> (None, Some (ExternalError err))
         | (m, None) \<Rightarrow>
             (Some (pooled\<lparr>msg := m, circleHash64 := circlehash_Hash64 m (k0 bdb)\<rparr>), None)))"

definition Levels :: "basicDigester \<Rightarrow> nat" where
  "Levels bd = 4"

text \<open>
  \<^verbatim>\<open>basicDigester.Digest\<close>. \<open>blake3_Sum256\<close> is the external 256-bit hash, 32 bytes
  that the method reads as four big-endian words and stores in the digester the first
  time a level from 1 to 3 is asked for. Indexing \<^verbatim>\<open>bd.blake3Hash[level-1]\<close> is within
  bounds on that branch.
\<close>

definition Digest ::
  "(bytes \<Rightarrow> bytes32) \<Rightarrow> nat \<Rightarrow> basicDigester
     \<Rightarrow> (Digest \<times> 'x digest_error option) \<times> basicDigester" where
  "Digest blake3_Sum256 level bd =
     (if level \<ge> Levels bd then ((0, Some (HashLevelError level (Levels bd))), bd)
      else if level = 0 then ((circleHash64 bd, None), bd)
      else if level = 1 \<or> level = 2 \<or> level = 3 then
        (let bd' = (if blake3Hash bd = emptyBlake3Hash
                    then (case blake3_Sum256 (msg bd) of
                            Bytes32 w0 w1 w2 w3 \<Rightarrow>
                              bd\<lparr>blake3Hash := Uint64x4 (BigEndian_Uint64 w0) (BigEndian_Uint64 w1)
                                                      (BigEndian_Uint64 w2) (BigEndian_Uint64 w3)\<rparr>)
                    else bd)
         in ((at4 (blake3Hash bd') (level - 1), None), bd'))
      else ((0, None), bd))"

section \<open>Vocabulary of the properties\<close>

text \<open>
  The order of handles that the properties speak of: first by the address read as a
  big-endian unsigned integer, then by the index read the same way.
\<close>

definition handle_before :: "StorageID \<Rightarrow> StorageID \<Rightarrow> bool" where
  "handle_before a b =
     (AddressAsUint64 a < AddressAsUint64 b
      \<or> (AddressAsUint64 a = AddressAsUint64 b \<and> IndexAsUint64 a < IndexAsUint64 b))"

text \<open>
  For a key of the deltas, \<open>commit_call\<close> is the call on the base storage that goes with
  it: a remove for a tombstone, a store of the encoded slab otherwise; \<open>ok_call\<close> is that
  call answered without error. \<open>base_log\<close> reads the log of a logging base storage, and
  \<open>calls_issued s s'\<close> is what an operation that led from \<open>s\<close> to \<open>s'\<close> appended to it.
\<close>

definition commit_call ::
  "('slab Slab \<Rightarrow> bytes \<times> 'e option) \<Rightarrow> (StorageID, 'slab Slab) alist \<Rightarrow> StorageID \<Rightarrow> base_call" where
  "commit_call Encode ds sid =
     (let slab = index_or_nil ds sid in
      if slab = None then CallRemove sid else CallStore sid (fst (Encode slab)))"

definition base_log :: "('slab, 'b \<times> (base_call \<times> 'e option) list) PersistentSlabStorage
   \<Rightarrow> (base_call \<times> 'e option) list" where
  "base_log s = snd (baseStorage s)"

definition ok_call ::
  "('slab Slab \<Rightarrow> bytes \<times> 'e option) \<Rightarrow> (StorageID, 'slab Slab) alist \<Rightarrow> StorageID
     \<Rightarrow> base_call \<times> 'e option" where
  "ok_call Encode ds sid = (commit_call Encode ds sid, None)"

definition encode_fails ::
  "('slab Slab \<Rightarrow> bytes \<times> 'e option) \<Rightarrow> (StorageID, 'slab Slab) alist \<Rightarrow> StorageID \<Rightarrow> 'e \<Rightarrow> bool" where
  "encode_fails Encode ds sid e =
     (index_or_nil ds sid \<noteq> None \<and> snd (Encode (index_or_nil ds sid)) = Some e)"

definition calls_issued ::
  "('slab, 'b \<times> (base_call \<times> 'e option) list) PersistentSlabStorage
     \<Rightarrow> ('slab, 'b \<times> (base_call \<times> 'e option) list) PersistentSlabStorage
     \<Rightarrow> (base_call \<times> 'e option) list" where
  "calls_issued s s' = drop (length (base_log s)) (base_log s')"

text \<open>
  Every pending slab of an owned key encodes without error, to a slice that is not \<^verbatim>\<open>nil\<close>.
\<close>

definition all_encodable ::
  "('slab Slab \<Rightarrow> bytes \<times> 'e option) \<Rightarrow> ('slab, 'b) PersistentSlabStorage \<Rightarrow> bool" where
  "all_encodable Encode s =
     (\<forall>sid\<in>set (sortedOwnedDeltaKeys s).
        index_or_nil (deltas s) sid \<noteq> None \<longrightarrow>
          snd (Encode (index_or_nil (deltas s) sid)) = None
          \<and> fst (Encode (index_or_nil (deltas s) sid)) \<noteq> None)"

definition encoded_data ::
  "('slab Slab \<Rightarrow> bytes \<times> 'e option) \<Rightarrow> (StorageID, 'slab Slab) alist \<Rightarrow> StorageID \<Rightarrow> bytes" where
  "encoded_data Encode ds sid = fst (snd (encoder Encode ds sid))"

text \<open>
  A sequence of \<^verbatim>\<open>Store\<close> and \<^verbatim>\<open>Remove\<close> calls made one after the other by a caller, with
  the errors they return.
\<close>

datatype 'slab storage_op = OpStore StorageID "'slab Slab" | OpRemove StorageID

fun apply_op ::
  "('b, 'e) BaseStorage \<Rightarrow> ('slab Slab \<Rightarrow> bytes \<times> 'e option) \<Rightarrow> 'slab storage_op
     \<Rightarrow> ('slab, 'b) PersistentSlabStorage \<Rightarrow> 'e option \<times> ('slab, 'b) PersistentSlabStorage" where
  "apply_op B Encode (OpStore sid slab) s = Store B Encode sid slab s"
| "apply_op B Encode (OpRemove sid) s = Remove B sid s"

fun apply_ops ::
  "('b, 'e) BaseStorage \<Rightarrow> ('slab Slab \<Rightarrow> bytes \<times> 'e option) \<Rightarrow> 'slab storage_op list
     \<Rightarrow> ('slab, 'b) PersistentSlabStorage \<Rightarrow> 'e option list \<times> ('slab, 'b) PersistentSlabStorage" where
  "apply_ops B Encode [] s = ([], s)"
| "apply_ops B Encode (op # ops) s =
     (case apply_op B Encode op s of
        (err, s1) \<Rightarrow> (case apply_ops B Encode ops s1 of (errs, s2) \<Rightarrow> (err # errs, s2)))"

text \<open>
  The counter from which the next handle of an address is made, over the in-memory base
  storage: \<^verbatim>\<open>tempStorageIndex\<close> for the undefined address, the entry of \<^verbatim>\<open>storageIndex\<close>
  (zero when there is none) otherwise. \<open>allocate_all\<close> is a sequence of
  \<^verbatim>\<open>GenerateStorageID\<close> calls, one per address of the list.
\<close>

definition allocation_counter :: "('slab, InMemBaseStorage) PersistentSlabStorage \<Rightarrow> Address \<Rightarrow> uint64" where
  "allocation_counter s a =
     (if a = AddressUndefined then tempStorageIndex s
      else BigEndian_Uint64 (case DAList.lookup (storageIndex (baseStorage s)) a of
                               None \<Rightarrow> StorageIndexUndefined | Some i \<Rightarrow> i))"

fun allocate_all ::
  "Address list \<Rightarrow> ('slab, InMemBaseStorage) PersistentSlabStorage
     \<Rightarrow> (StorageID \<times> 'e option) list \<times> ('slab, InMemBaseStorage) PersistentSlabStorage" where
  "allocate_all [] s = ([], s)"
| "allocate_all (a # as) s =
     (case GenerateStorageID InMemBaseStorage_impl a s of
        (r, s1) \<Rightarrow> (case allocate_all as s1 of (rs, s2) \<Rightarrow> (r # rs, s2)))"

definition same_address_ascending :: "StorageID \<Rightarrow> StorageID \<Rightarrow> bool" where
  "same_address_ascending x y = (Address x = Address y \<longrightarrow> IndexAsUint64 x < IndexAsUint64 y)"

subsection \<open>Concrete parameters for the examples\<close>

definition ex_hash64 :: "bytes \<Rightarrow> uint64 \<Rightarrow> uint64" where
  "ex_hash64 m k = k + word_of_nat (len_bytes m)"

definition ex_hip :: "nat \<Rightarrow> byte list \<Rightarrow> bytes \<times> unit option" where
  "ex_hip v buffer = (Some [word_of_nat v], None)"

definition ex_blake3 :: "bytes \<Rightarrow> bytes32" where
  "ex_blake3 m =
     Bytes32 (Bytes8 0 0 0 0 0 0 0 1) (Bytes8 0 0 0 0 0 0 0 2)
             (Bytes8 0 0 0 0 0 0 0 3) (Bytes8 0 0 0 0 0 0 0 4)"

definition ex_pooled :: basicDigester where
  "ex_pooled = \<lparr>circleHash64 = 0, blake3Hash = emptyBlake3Hash, scratch = [], msg = None\<rparr>"

definition ex_builder :: basicDigesterBuilder where
  "ex_builder = SetSeed 5 6 newBasicDigesterBuilder"

definition ex_digester :: basicDigester where
  "ex_digester = \<lparr>circleHash64 = 6, blake3Hash = emptyBlake3Hash, scratch = [], msg = Some [9]\<rparr>"

datatype ex_error = EncodingFailed | DecodingFailed

definition ex_owner :: Address where
  "ex_owner = Bytes8 0 0 0 0 0 0 0 1"

definition ex_id1 :: StorageID where
  "ex_id1 = StorageID ex_owner (Bytes8 0 0 0 0 0 0 0 1)"

definition ex_id2 :: StorageID where
  "ex_id2 = StorageID ex_owner (Bytes8 0 0 0 0 0 0 0 2)"

definition ex_temp :: StorageID where
  "ex_temp = StorageID AddressUndefined (Bytes8 0 0 0 0 0 0 0 1)"

definition ex_Encode :: "nat Slab \<Rightarrow> bytes \<times> ex_error option" where
  "ex_Encode slab =
     (case slab of
        None \<Rightarrow> (None, Some EncodingFailed)
      | Some n \<Rightarrow> if n = 0 then (None, Some EncodingFailed) else (Some [word_of_nat n], None))"

definition ex_DecodeSlab :: "StorageID \<Rightarrow> bytes \<Rightarrow> nat Slab \<times> ex_error option" where
  "ex_DecodeSlab sid data =
     (case data of
        Some [b] \<Rightarrow> (Some (unat b), None)
      | _ \<Rightarrow> (None, Some DecodingFailed))"

type_synonym ex_state =
  "(nat, InMemBaseStorage \<times> (base_call \<times> ex_error option) list) PersistentSlabStorage"

definition ex_storage :: ex_state where
  "ex_storage = NewPersistentSlabStorage (NewInMemBaseStorage, []) []"

definition ex_pending :: ex_state where
  "ex_pending =
     ex_storage\<lparr>deltas := DAList.update ex_id1 None
        (DAList.update ex_temp (Some 5) (DAList.update ex_id2 (Some 7) DAList.empty))\<rparr>"

definition ex_bad :: ex_state where
  "ex_bad =
     ex_storage\<lparr>deltas := DAList.update ex_id2 (Some 0) (DAList.update ex_id1 (Some 7) DAList.empty)\<rparr>"

definition ex_cached :: ex_state where
  "ex_cached =
     ex_storage\<lparr>baseStorage := (snd (InMem_Store ex_id2 (Some [7]) NewInMemBaseStorage :: ex_error option \<times> InMemBaseStorage), []),
                cache := DAList.update ex_id1 (Some 3) DAList.empty,
                deltas := DAList.update ex_temp None DAList.empty\<rparr>"

definition ex_fresh_id :: StorageID where
  "ex_fresh_id = StorageID ex_owner (Bytes8 0 0 0 0 0 0 0 9)"

definition ex_plain :: "(nat, InMemBaseStorage) PersistentSlabStorage" where
  "ex_plain = NewPersistentSlabStorage NewInMemBaseStorage []"

definition ex_auto :: ex_state where
  "ex_auto = NewPersistentSlabStorage (NewInMemBaseStorage, []) [WithAutoCommit]"

definition ex_auto_removed :: ex_state where
  "ex_auto_removed = snd (Remove (logged InMemBaseStorage_impl) ex_id1 ex_auto)"

definition ex_auto_stored :: ex_state where
  "ex_auto_stored =
     snd (Store (logged InMemBaseStorage_impl) ex_Encode ex_id1 (Some 7) ex_auto_removed)"

definition ex_committed :: "(nat, InMemBaseStorage) PersistentSlabStorage" where
  "ex_committed =
     snd (Commit (InMemBaseStorage_impl :: (InMemBaseStorage, ex_error) BaseStorage) ex_Encode
            (ex_plain\<lparr>deltas := DAList.update ex_id1 (Some 7) DAList.empty\<rparr>))"

definition ex_wrap :: "(nat, InMemBaseStorage) PersistentSlabStorage" where
  "ex_wrap =
     ex_plain\<lparr>tempStorageIndex := 0xFFFFFFFFFFFFFFFE,
              baseStorage := NewInMemBaseStorage
                \<lparr>storageIndex :=
                   DAList.update ex_owner (Bytes8 255 255 255 255 255 255 255 255) DAList.empty\<rparr>\<rparr>"

section \<open>Byte order, handle order and sorting\<close>

lemma le_nat_bound: "le_nat xs < 256 ^ length xs"
proof (induction xs)
  case Nil
  then show ?case by simp
next
  case (Cons b bs)
  have "unat b < 256" using unsigned_less [of b, where ?'a = nat] by simp
  with Cons show ?case by simp
qed

lemma digit_split:
  fixes a b c d :: nat
  assumes "a + 256 * b = c + 256 * d" "a < 256" "c < 256"
  shows "a = c \<and> b = d"
proof -
  have "(a + 256 * b) mod 256 = a" using assms(2) by simp
  moreover have "(c + 256 * d) mod 256 = c" using assms(3) by simp
  ultimately have "a = c" using assms(1) by simp
  with assms(1) show ?thesis by simp
qed

lemma le_nat_inj: "length xs = length ys \<Longrightarrow> le_nat xs = le_nat ys \<Longrightarrow> xs = ys"
proof (induction xs ys rule: list_induct2)
  case Nil
  then show ?case by simp
next
  case (Cons x xs y ys)
  have bx: "unat x < 256" using unsigned_less [of x, where ?'a = nat] by simp
  have by': "unat y < 256" using unsigned_less [of y, where ?'a = nat] by simp
  from Cons.prems have eq: "unat x + 256 * le_nat xs = unat y + 256 * le_nat ys" by simp
  from digit_split [OF eq bx by'] have "unat x = unat y" and "le_nat xs = le_nat ys" by simp_all
  with Cons.IH show ?case by (simp add: word_unat_eq_iff)
qed

lemma be_nat_inj: "length xs = length ys \<Longrightarrow> be_nat xs = be_nat ys \<Longrightarrow> xs = ys"
  using le_nat_inj [of "rev xs" "rev ys"] by (simp add: be_nat_def)

lemma be_nat_bytes_of_bound: "be_nat (bytes_of x) < 2 ^ 64"
proof -
  have "le_nat (rev (bytes_of x)) < 256 ^ length (rev (bytes_of x))" by (rule le_nat_bound)
  moreover have "length (rev (bytes_of x)) = 8" by (cases x) simp
  ultimately show ?thesis by (simp add: be_nat_def)
qed

lemma unat_BigEndian_Uint64: "unat (BigEndian_Uint64 x) = be_nat (bytes_of x)"
  using be_nat_bytes_of_bound [of x] by (simp add: BigEndian_Uint64_def unat_of_nat)

lemma bytes_of_inj: "bytes_of x = bytes_of y \<Longrightarrow> x = y"
  by (cases x; cases y) simp

lemma BigEndian_Uint64_inj: "BigEndian_Uint64 a = BigEndian_Uint64 b \<Longrightarrow> a = b"
proof -
  assume "BigEndian_Uint64 a = BigEndian_Uint64 b"
  then have "be_nat (bytes_of a) = be_nat (bytes_of b)"
    using unat_BigEndian_Uint64 by metis
  moreover have "length (bytes_of a) = length (bytes_of b)" by (cases a; cases b) simp
  ultimately show ?thesis using be_nat_inj bytes_of_inj by blast
qed

lemma unat_byte_at: "unat (byte_at k n) = (n div 256 ^ k) mod 256"
  by (simp add: byte_at_def unat_of_nat)

lemma le_nat_digits:
  "le_nat (map (\<lambda>k. byte_at (k + j) n) [0..<m]) = (n div 256 ^ j) mod 256 ^ m"
proof (induction m arbitrary: j)
  case 0
  then show ?case by simp
next
  case (Suc m)
  have "[0..<Suc m] = 0 # map Suc [0..<m]"
    by (simp add: upt_conv_Cons map_Suc_upt del: upt_Suc)
  then have "le_nat (map (\<lambda>k. byte_at (k + j) n) [0..<Suc m])
      = unat (byte_at j n) + 256 * le_nat (map (\<lambda>k. byte_at (k + Suc j) n) [0..<m])"
    by (simp add: comp_def del: upt_Suc)
  also have "\<dots> = (n div 256 ^ j) mod 256 + 256 * ((n div 256 ^ Suc j) mod 256 ^ m)"
    using Suc.IH [of "Suc j"] by (simp add: unat_byte_at)
  also have "\<dots> = (n div 256 ^ j) mod 256 + 256 * (((n div 256 ^ j) div 256) mod 256 ^ m)"
  proof -
    have "n div 256 ^ Suc j = n div (256 ^ j * 256)" by (simp add: mult.commute)
    also have "\<dots> = (n div 256 ^ j) div 256" by (rule div_mult2_eq)
    finally show ?thesis by simp
  qed
  also have "\<dots> = (n div 256 ^ j) mod 256 ^ Suc m"
    by (simp add: mod_mult2_eq)
  finally show ?case .
qed

lemma rev_bytes_of_PutUint64:
  "rev (bytes_of (BigEndian_PutUint64 v)) = map (\<lambda>k. byte_at (k + 0) (unat v)) [0..<8]"
  by (simp add: BigEndian_PutUint64_def Let_def upt_rec eval_nat_numeral)

lemma Uint64_PutUint64: "BigEndian_Uint64 (BigEndian_PutUint64 v) = v"
proof -
  have "unat v < 2 ^ 64" using unsigned_less [of v, where ?'a = nat] by simp
  then have "be_nat (bytes_of (BigEndian_PutUint64 v)) = unat v"
    unfolding be_nat_def rev_bytes_of_PutUint64 le_nat_digits by simp
  then show ?thesis by (simp add: BigEndian_Uint64_def)
qed

lemma Address_eq_iff: "Address a = Address b \<longleftrightarrow> AddressAsUint64 a = AddressAsUint64 b"
  using BigEndian_Uint64_inj by (auto simp: AddressAsUint64_def)

lemma less_StorageID_iff: "less_StorageID a b \<longleftrightarrow> handle_before a b"
  by (auto simp: less_StorageID_def handle_before_def Address_eq_iff)

lemma handle_before_trans: "handle_before a b \<Longrightarrow> handle_before b c \<Longrightarrow> handle_before a c"
  by (auto simp: handle_before_def)

lemma handle_before_irrefl: "\<not> handle_before a a"
  by (simp add: handle_before_def)

lemma handle_before_total: "a \<noteq> b \<Longrightarrow> \<not> handle_before a b \<Longrightarrow> handle_before b a"
proof -
  assume ne: "a \<noteq> b" and nb: "\<not> handle_before a b"
  have "AddressAsUint64 a \<noteq> AddressAsUint64 b \<or> IndexAsUint64 a \<noteq> IndexAsUint64 b"
  proof (rule ccontr)
    assume "\<not> ?thesis"
    then have "Address a = Address b" "Index a = Index b"
      using BigEndian_Uint64_inj by (auto simp: AddressAsUint64_def IndexAsUint64_def)
    then have "a = b" by (simp add: StorageID.expand)
    with ne show False by simp
  qed
  with nb show ?thesis by (auto simp: handle_before_def)
qed

lemma set_insert_by: "set (insert_by lt x xs) = insert x (set xs)"
  by (induction xs) auto

lemma distinct_insert_by: "distinct xs \<Longrightarrow> x \<notin> set xs \<Longrightarrow> distinct (insert_by lt x xs)"
  by (induction xs) (auto simp: set_insert_by)

lemma sorted_insert_by:
  "sorted_wrt handle_before xs \<Longrightarrow> x \<notin> set xs
     \<Longrightarrow> sorted_wrt handle_before (insert_by less_StorageID x xs)"
proof (induction xs)
  case Nil
  then show ?case by simp
next
  case (Cons y ys)
  show ?case
  proof (cases "less_StorageID x y")
    case True
    then have xy: "handle_before x y" by (simp add: less_StorageID_iff)
    with Cons.prems have "\<forall>z\<in>set ys. handle_before x z"
      by (auto intro: handle_before_trans)
    with True xy Cons.prems show ?thesis by simp
  next
    case False
    with Cons.prems have yx: "handle_before y x"
      using handle_before_total [of x y] by (simp add: less_StorageID_iff)
    with False Cons show ?thesis by (auto simp: set_insert_by)
  qed
qed

lemma set_sort_Slice: "set (sort_Slice lt xs) = set xs"
  by (induction xs) (auto simp: sort_Slice_def set_insert_by)

lemma distinct_sort_Slice: "distinct xs \<Longrightarrow> distinct (sort_Slice lt xs)"
proof (induction xs)
  case Nil
  then show ?case by (simp add: sort_Slice_def)
next
  case (Cons x xs)
  then have "distinct (sort_Slice lt xs)" "x \<notin> set (sort_Slice lt xs)"
    by (simp_all add: set_sort_Slice)
  then have "distinct (insert_by lt x (sort_Slice lt xs))" by (rule distinct_insert_by)
  then show ?case by (simp add: sort_Slice_def)
qed

lemma sorted_sort_Slice:
  "distinct xs \<Longrightarrow> sorted_wrt handle_before (sort_Slice less_StorageID xs)"
proof (induction xs)
  case Nil
  then show ?case by (simp add: sort_Slice_def)
next
  case (Cons x xs)
  then have "sorted_wrt handle_before (sort_Slice less_StorageID xs)"
    and "x \<notin> set (sort_Slice less_StorageID xs)"
    by (simp_all add: set_sort_Slice)
  then have "sorted_wrt handle_before (insert_by less_StorageID x (sort_Slice less_StorageID xs))"
    by (rule sorted_insert_by)
  then show ?case by (simp add: sort_Slice_def)
qed

lemma distinct_range_keys: "distinct (range_keys m)"
  by (simp add: range_keys_def)

lemma set_range_keys: "k \<in> set (range_keys m) \<longleftrightarrow> DAList.lookup m k \<noteq> None"
  by (simp add: range_keys_def DAList.lookup.rep_eq map_of_eq_None_iff)

lemma sorted_sortedOwnedDeltaKeys: "sorted_wrt handle_before (sortedOwnedDeltaKeys s)"
  by (simp add: sortedOwnedDeltaKeys_def sorted_sort_Slice distinct_range_keys)

lemma distinct_sortedOwnedDeltaKeys: "distinct (sortedOwnedDeltaKeys s)"
  by (simp add: sortedOwnedDeltaKeys_def distinct_sort_Slice distinct_range_keys)

lemma set_sortedOwnedDeltaKeys:
  "set (sortedOwnedDeltaKeys s)
     = {k. DAList.lookup (deltas s) k \<noteq> None \<and> Address k \<noteq> AddressUndefined}"
  by (auto simp: sortedOwnedDeltaKeys_def set_sort_Slice set_range_keys)

lemma sorted_wrt_handle_unique:
  "sorted_wrt handle_before xs \<Longrightarrow> sorted_wrt handle_before ys \<Longrightarrow> set xs = set ys \<Longrightarrow> xs = ys"
proof (induction xs arbitrary: ys)
  case Nil
  then show ?case by simp
next
  case (Cons x xs)
  then obtain y ys' where ys: "ys = y # ys'" by (cases ys) auto
  have "x = y"
  proof (rule ccontr)
    assume ne: "x \<noteq> y"
    with Cons.prems ys have "y \<in> set xs" "x \<in> set ys'" by auto
    with Cons.prems ys have "handle_before x y" "handle_before y x" by auto
    then show False using handle_before_trans handle_before_irrefl by blast
  qed
  moreover have "x \<notin> set xs" "y \<notin> set ys'"
    using Cons.prems ys handle_before_irrefl by auto
  ultimately have "set xs = set ys'" using Cons.prems(3) ys by auto
  with Cons ys \<open>x = y\<close> show ?case by simp
qed

text \<open>
  Two association lists that denote the same map give the same sorted keys: the order in
  which Go visits the keys of the deltas has no influence.
\<close>

lemma sortedOwnedDeltaKeys_order_independent:
  "DAList.lookup (deltas s) = DAList.lookup (deltas t)
     \<Longrightarrow> sortedOwnedDeltaKeys s = sortedOwnedDeltaKeys t"
proof -
  assume "DAList.lookup (deltas s) = DAList.lookup (deltas t)"
  then have "set (sortedOwnedDeltaKeys s) = set (sortedOwnedDeltaKeys t)"
    by (simp add: set_sortedOwnedDeltaKeys)
  with sorted_sortedOwnedDeltaKeys [of s] sorted_sortedOwnedDeltaKeys [of t]
  show ?thesis by (rule sorted_wrt_handle_unique)
qed

section \<open>The loop of Commit\<close>

lemma bs_Remove_logged:
  "bs_Remove (logged B) sid (b, log) =
     (fst (bs_Remove B sid b), (snd (bs_Remove B sid b), log @ [(CallRemove sid, fst (bs_Remove B sid b))]))"
  by (simp add: logged_def split: prod.splits)

lemma bs_Store_logged:
  "bs_Store (logged B) sid data (b, log) =
     (fst (bs_Store B sid data b),
      (snd (bs_Store B sid data b), log @ [(CallStore sid data, fst (bs_Store B sid data b))]))"
  by (simp add: logged_def split: prod.splits)

lemma call_id_commit_call: "call_id (commit_call Encode ds sid) = sid"
  by (simp add: commit_call_def Let_def)

lemma commit_call_remove:
  "index_or_nil ds sid = None \<Longrightarrow> commit_call Encode ds sid = CallRemove sid"
  by (simp add: commit_call_def)

lemma commit_call_store:
  "index_or_nil ds sid \<noteq> None \<Longrightarrow> Encode (index_or_nil ds sid) = (data, err)
     \<Longrightarrow> commit_call Encode ds sid = CallStore sid data"
  by (simp add: commit_call_def Let_def)

lemma commit_loop_deltas:
  "commit_loop B Encode ids s = (r, s') \<Longrightarrow> deltas s' = deltas s"
proof (induction ids arbitrary: s)
  case Nil
  then show ?case by simp
next
  case (Cons sid ids)
  then show ?case
    by (fastforce simp: Let_def split: if_splits prod.splits option.splits)
qed

lemma commit_loop_log_prefix:
  "commit_loop (logged B) Encode ids s = (r, s') \<Longrightarrow>
     \<exists>k\<le>length ids. map fst (base_log s')
        = map fst (base_log s) @ map (commit_call Encode (deltas s)) (take k ids)"
proof (induction ids arbitrary: s)
  case Nil
  then show ?case by simp
next
  case (Cons sid ids)
  obtain b log where bl: "baseStorage s = (b, log)" by (cases "baseStorage s")
  let ?slab = "index_or_nil (deltas s) sid"
  show ?case
  proof (cases "?slab = None")
    case True
    show ?thesis
    proof (cases "fst (bs_Remove B sid b)")
      case (Some e)
      with True Cons.prems bl have "s' = s\<lparr>baseStorage := (snd (bs_Remove B sid b), log @ [(CallRemove sid, Some e)])\<rparr>"
        by (auto simp: Let_def bs_Remove_logged split: prod.splits option.splits)
      then have "map fst (base_log s')
        = map fst (base_log s) @ map (commit_call Encode (deltas s)) (take 1 (sid # ids))"
        using True bl by (simp add: base_log_def commit_call_remove)
      then show ?thesis by (intro exI [of _ 1]) simp
    next
      case None
      let ?s1 = "s\<lparr>baseStorage := (snd (bs_Remove B sid b), log @ [(CallRemove sid, None)])\<rparr>"
      from None True Cons.prems bl have "commit_loop (logged B) Encode ids ?s1 = (r, s')"
        by (auto simp: Let_def bs_Remove_logged split: prod.splits option.splits)
      from Cons.IH [OF this] obtain k where k: "k \<le> length ids"
        "map fst (base_log s') = map fst (base_log ?s1) @ map (commit_call Encode (deltas ?s1)) (take k ids)"
        by blast
      then have "map fst (base_log s')
        = map fst (base_log s) @ map (commit_call Encode (deltas s)) (take (Suc k) (sid # ids))"
        using True bl by (simp add: base_log_def commit_call_remove)
      with k(1) show ?thesis by (intro exI [of _ "Suc k"]) simp
    qed
  next
    case False
    obtain data err where enc: "Encode ?slab = (data, err)" by (cases "Encode ?slab")
    show ?thesis
    proof (cases err)
      case (Some e)
      with False enc Cons.prems have "s' = s" by (auto simp: Let_def)
      then show ?thesis by (intro exI [of _ 0]) simp
    next
      case None
      note encNone = None
      show ?thesis
      proof (cases "fst (bs_Store B sid data b)")
        case (Some e)
        with False enc encNone Cons.prems bl
        have "s' = s\<lparr>baseStorage := (snd (bs_Store B sid data b), log @ [(CallStore sid data, Some e)])\<rparr>"
          by (auto simp: Let_def bs_Store_logged split: prod.splits option.splits)
        then have "map fst (base_log s')
          = map fst (base_log s) @ map (commit_call Encode (deltas s)) (take 1 (sid # ids))"
          using bl commit_call_store [of "deltas s" sid Encode data err] False enc by (simp add: base_log_def)
        then show ?thesis by (intro exI [of _ 1]) simp
      next
        case None
        let ?s1 = "s\<lparr>baseStorage := (snd (bs_Store B sid data b), log @ [(CallStore sid data, None)]),
                      cache := DAList.update sid ?slab (cache s)\<rparr>"
        from None False enc encNone Cons.prems bl
        have "commit_loop (logged B) Encode ids ?s1 = (r, s')"
          by (auto simp: Let_def bs_Store_logged split: prod.splits option.splits)
        from Cons.IH [OF this] obtain k where k: "k \<le> length ids"
          "map fst (base_log s') = map fst (base_log ?s1) @ map (commit_call Encode (deltas ?s1)) (take k ids)"
          by blast
        then have "map fst (base_log s')
          = map fst (base_log s) @ map (commit_call Encode (deltas s)) (take (Suc k) (sid # ids))"
          using bl commit_call_store [of "deltas s" sid Encode data err] False enc by (simp add: base_log_def)
        with k(1) show ?thesis by (intro exI [of _ "Suc k"]) simp
      qed
    qed
  qed
qed

lemma commit_loop_success:
  "commit_loop (logged B) Encode ids s = (None, s') \<Longrightarrow>
     base_log s' = base_log s @ map (ok_call Encode (deltas s)) ids
     \<and> (\<forall>sid\<in>set ids. \<forall>e. \<not> encode_fails Encode (deltas s) sid e)"
proof (induction ids arbitrary: s)
  case Nil
  then show ?case by simp
next
  case (Cons sid ids)
  obtain b log where bl: "baseStorage s = (b, log)" by (cases "baseStorage s")
  let ?slab = "index_or_nil (deltas s) sid"
  show ?case
  proof (cases "?slab = None")
    case True
    let ?s1 = "s\<lparr>baseStorage := (snd (bs_Remove B sid b), log @ [(CallRemove sid, None)])\<rparr>"
    from True Cons.prems bl have "commit_loop (logged B) Encode ids ?s1 = (None, s')"
      by (auto simp: Let_def bs_Remove_logged split: prod.splits option.splits)
    from Cons.IH [OF this] show ?thesis
      using True bl by (simp add: base_log_def ok_call_def commit_call_remove encode_fails_def)
  next
    case False
    obtain data err where enc: "Encode ?slab = (data, err)" by (cases "Encode ?slab")
    with False Cons.prems have errN: "err = None"
      by (auto simp: Let_def split: option.splits)
    let ?s1 = "s\<lparr>baseStorage := (snd (bs_Store B sid data b), log @ [(CallStore sid data, None)]),
                  cache := DAList.update sid ?slab (cache s)\<rparr>"
    from False enc errN Cons.prems bl
    have "commit_loop (logged B) Encode ids ?s1 = (None, s')"
      by (auto simp: Let_def bs_Store_logged split: prod.splits option.splits)
    from Cons.IH [OF this] show ?thesis
      using bl commit_call_store [of "deltas s" sid Encode data err] False enc errN
      by (simp add: base_log_def ok_call_def encode_fails_def)
  qed
qed

lemma commit_loop_failure:
  "commit_loop (logged B) Encode ids s = (Some e, s') \<Longrightarrow>
     \<exists>k<length ids. \<exists>rest.
        base_log s' = base_log s @ map (ok_call Encode (deltas s)) (take k ids) @ rest
        \<and> (rest = [] \<and> encode_fails Encode (deltas s) (ids ! k) e
            \<or> rest = [(commit_call Encode (deltas s) (ids ! k), Some e)])"
proof (induction ids arbitrary: s)
  case Nil
  then show ?case by simp
next
  case (Cons sid ids)
  obtain b log where bl: "baseStorage s = (b, log)" by (cases "baseStorage s")
  let ?slab = "index_or_nil (deltas s) sid"
  let ?P = "\<lambda>k rest. base_log s' = base_log s @ map (ok_call Encode (deltas s)) (take k (sid # ids)) @ rest
        \<and> (rest = [] \<and> encode_fails Encode (deltas s) ((sid # ids) ! k) e
            \<or> rest = [(commit_call Encode (deltas s) ((sid # ids) ! k), Some e)])"
  have step: "?P (Suc k) rest" if rec: "commit_loop (logged B) Encode ids s1 = (Some e, s')"
    and d1: "deltas s1 = deltas s"
    and l1: "base_log s1 = base_log s @ [ok_call Encode (deltas s) sid]"
    and k: "base_log s' = base_log s1 @ map (ok_call Encode (deltas s1)) (take k ids) @ rest
        \<and> (rest = [] \<and> encode_fails Encode (deltas s1) (ids ! k) e
            \<or> rest = [(commit_call Encode (deltas s1) (ids ! k), Some e)])"
    for s1 k rest
    using k d1 l1 by simp
  show ?case
  proof (cases "?slab = None")
    case True
    show ?thesis
    proof (cases "fst (bs_Remove B sid b)")
      case (Some e')
      with True Cons.prems bl
      have "s' = s\<lparr>baseStorage := (snd (bs_Remove B sid b), log @ [(CallRemove sid, Some e')])\<rparr>"
        and "e' = e"
        by (auto simp: Let_def bs_Remove_logged split: prod.splits option.splits)
      then have "?P 0 [(commit_call Encode (deltas s) sid, Some e)]"
        using True bl by (simp add: base_log_def commit_call_remove)
      then show ?thesis by (intro exI [of _ 0]) auto
    next
      case None
      let ?s1 = "s\<lparr>baseStorage := (snd (bs_Remove B sid b), log @ [(CallRemove sid, None)])\<rparr>"
      from None True Cons.prems bl have rec: "commit_loop (logged B) Encode ids ?s1 = (Some e, s')"
        by (auto simp: Let_def bs_Remove_logged split: prod.splits option.splits)
      from Cons.IH [OF this] obtain k rest where k: "k < length ids"
        and kk: "base_log s' = base_log ?s1 @ map (ok_call Encode (deltas ?s1)) (take k ids) @ rest
        \<and> (rest = [] \<and> encode_fails Encode (deltas ?s1) (ids ! k) e
            \<or> rest = [(commit_call Encode (deltas ?s1) (ids ! k), Some e)])"
        by blast
      have "base_log ?s1 = base_log s @ [ok_call Encode (deltas s) sid]"
        using True bl by (simp add: base_log_def ok_call_def commit_call_remove)
      from step [OF rec _ this kk] have "?P (Suc k) rest" by simp
      with k show ?thesis by (intro exI [of _ "Suc k"]) auto
    qed
  next
    case False
    obtain data err where enc: "Encode ?slab = (data, err)" by (cases "Encode ?slab")
    show ?thesis
    proof (cases err)
      case (Some e')
      with False enc Cons.prems have "s' = s" "e' = e" by (auto simp: Let_def)
      with False enc Some have "?P 0 []" by (simp add: encode_fails_def)
      then show ?thesis by (intro exI [of _ 0]) auto
    next
      case None
      note encNone = None
      have cc: "commit_call Encode (deltas s) sid = CallStore sid data"
        using commit_call_store [of "deltas s" sid Encode data err] False enc by simp
      show ?thesis
      proof (cases "fst (bs_Store B sid data b)")
        case (Some e')
        with False enc encNone Cons.prems bl
        have "s' = s\<lparr>baseStorage := (snd (bs_Store B sid data b), log @ [(CallStore sid data, Some e')])\<rparr>"
          and "e' = e"
          by (auto simp: Let_def bs_Store_logged split: prod.splits option.splits)
        then have "?P 0 [(commit_call Encode (deltas s) sid, Some e)]"
          using bl cc by (simp add: base_log_def)
        then show ?thesis by (intro exI [of _ 0]) auto
      next
        case None
        let ?s1 = "s\<lparr>baseStorage := (snd (bs_Store B sid data b), log @ [(CallStore sid data, None)]),
                      cache := DAList.update sid ?slab (cache s)\<rparr>"
        from None False enc encNone Cons.prems bl
        have rec: "commit_loop (logged B) Encode ids ?s1 = (Some e, s')"
          by (auto simp: Let_def bs_Store_logged split: prod.splits option.splits)
        from Cons.IH [OF this] obtain k rest where k: "k < length ids"
          and kk: "base_log s' = base_log ?s1 @ map (ok_call Encode (deltas ?s1)) (take k ids) @ rest
          \<and> (rest = [] \<and> encode_fails Encode (deltas ?s1) (ids ! k) e
              \<or> rest = [(commit_call Encode (deltas ?s1) (ids ! k), Some e)])"
          by blast
        have "base_log ?s1 = base_log s @ [ok_call Encode (deltas s) sid]"
          using bl cc by (simp add: base_log_def ok_call_def)
        from step [OF rec _ this kk] have "?P (Suc k) rest" by simp
        with k show ?thesis by (intro exI [of _ "Suc k"]) auto
      qed
    qed
  qed
qed

section \<open>Properties of Commit\<close>

lemma base_log_Commit:
  "base_log (snd (Commit B Encode s)) = base_log (snd (commit_loop B Encode (sortedOwnedDeltaKeys s) s))"
  by (simp add: Commit_def Let_def base_log_def split: prod.splits option.splits)

lemma fst_Commit:
  "fst (Commit B Encode s) = fst (commit_loop B Encode (sortedOwnedDeltaKeys s) s)"
  by (simp add: Commit_def Let_def split: prod.splits option.splits)

lemma Commit_calls_prefix:
  "\<exists>k\<le>length (sortedOwnedDeltaKeys s).
     map fst (calls_issued s (snd (Commit (logged B) Encode s)))
       = map (commit_call Encode (deltas s)) (take k (sortedOwnedDeltaKeys s))"
proof -
  obtain r s' where loop: "commit_loop (logged B) Encode (sortedOwnedDeltaKeys s) s = (r, s')"
    by (cases "commit_loop (logged B) Encode (sortedOwnedDeltaKeys s) s")
  from commit_loop_log_prefix [OF loop] obtain k where k: "k \<le> length (sortedOwnedDeltaKeys s)"
    and eq: "map fst (base_log s')
      = map fst (base_log s) @ map (commit_call Encode (deltas s)) (take k (sortedOwnedDeltaKeys s))"
    by blast
  have "map fst (drop (length (base_log s)) (base_log s'))
      = drop (length (map fst (base_log s))) (map fst (base_log s'))"
    by (simp add: drop_map)
  also have "\<dots> = map (commit_call Encode (deltas s)) (take k (sortedOwnedDeltaKeys s))"
    unfolding eq by simp
  finally show ?thesis
    using k loop by (auto simp: calls_issued_def base_log_Commit)
qed

lemma map_call_id_commit_call: "map (call_id \<circ> fst) cs = map call_id (map fst cs)"
  by simp

text \<open>
  C1: for every deltas map, every base storage and every encoder, the calls that \<open>Commit\<close>
  makes on the base storage are in strictly ascending order of handle, first by the address
  read as a big-endian unsigned integer, then by the index read the same way. The calls are
  those of an initial segment of the sorted owned keys: a remove for a tombstone, a store of
  the encoded slab otherwise.
\<close>

theorem Commit_calls_strictly_ascending:
  "sorted_wrt handle_before (map (call_id \<circ> fst) (calls_issued s (snd (Commit (logged B) Encode s))))
   \<and> (\<exists>k\<le>length (sortedOwnedDeltaKeys s).
         map fst (calls_issued s (snd (Commit (logged B) Encode s)))
           = map (commit_call Encode (deltas s)) (take k (sortedOwnedDeltaKeys s)))"
proof -
  from Commit_calls_prefix [of s B Encode] obtain k where
    eq: "map fst (calls_issued s (snd (Commit (logged B) Encode s)))
           = map (commit_call Encode (deltas s)) (take k (sortedOwnedDeltaKeys s))"
    by blast
  have "map call_id (map (commit_call Encode (deltas s)) (take k (sortedOwnedDeltaKeys s)))
      = take k (sortedOwnedDeltaKeys s)"
    by (simp add: comp_def call_id_commit_call)
  with eq have "map (call_id \<circ> fst) (calls_issued s (snd (Commit (logged B) Encode s)))
      = take k (sortedOwnedDeltaKeys s)"
    by (simp add: map_call_id_commit_call del: map_map)
  moreover have "sorted_wrt handle_before (take k (sortedOwnedDeltaKeys s))"
    using sorted_sortedOwnedDeltaKeys by (rule sorted_wrt_take)
  ultimately show ?thesis using Commit_calls_prefix [of s B Encode] by simp
qed

text \<open>
  C5: a handle whose address is the undefined address is never passed to the base storage
  by \<open>Commit\<close>, whatever the deltas hold for it. A commit that succeeds empties the
  deltas, so a slab left under such a handle is not kept there either: it has to be stored
  under an owned handle before the commit to be persisted.
\<close>

theorem Commit_skips_undefined_address:
  "Address sid = AddressUndefined \<Longrightarrow>
     sid \<notin> set (map (call_id \<circ> fst) (calls_issued s (snd (Commit (logged B) Encode s))))
     \<and> (fst (Commit (logged B) Encode s) = None
          \<longrightarrow> DAList.lookup (deltas (snd (Commit (logged B) Encode s))) sid = None)"
proof -
  assume undef: "Address sid = AddressUndefined"
  from Commit_calls_prefix [of s B Encode] obtain k where
    eq: "map fst (calls_issued s (snd (Commit (logged B) Encode s)))
           = map (commit_call Encode (deltas s)) (take k (sortedOwnedDeltaKeys s))"
    by blast
  have "map call_id (map (commit_call Encode (deltas s)) (take k (sortedOwnedDeltaKeys s)))
      = take k (sortedOwnedDeltaKeys s)"
    by (simp add: comp_def call_id_commit_call)
  with eq have "map (call_id \<circ> fst) (calls_issued s (snd (Commit (logged B) Encode s)))
      = take k (sortedOwnedDeltaKeys s)"
    by (simp add: map_call_id_commit_call del: map_map)
  moreover have "sid \<notin> set (sortedOwnedDeltaKeys s)"
    using undef by (simp add: set_sortedOwnedDeltaKeys)
  then have "sid \<notin> set (take k (sortedOwnedDeltaKeys s))"
    using set_take_subset by fastforce
  moreover have "fst (Commit (logged B) Encode s) = None
          \<longrightarrow> DAList.lookup (deltas (snd (Commit (logged B) Encode s))) sid = None"
    by (auto simp: Commit_def Let_def split: prod.splits option.splits)
  ultimately show ?thesis by simp
qed

text \<open>
  C4: when \<open>Commit\<close> returns an error \<open>e\<close>, the deltas are as they were before the call,
  and the calls made on the base storage are the successful calls for the first \<open>k\<close>
  sorted keys, followed either by nothing, when encoding the slab of the next key failed
  with \<open>e\<close>, or by the call for the next key, which the base storage answered with \<open>e\<close>.
  When \<open>Commit\<close> returns no error, every key was encoded and every call succeeded: a
  failure of any step is what \<open>Commit\<close> returns.
\<close>

theorem Commit_failure_keeps_deltas:
  "Commit (logged B) Encode s = (r, s') \<Longrightarrow>
     (case r of
        Some e \<Rightarrow>
          deltas s' = deltas s
          \<and> (\<exists>k<length (sortedOwnedDeltaKeys s). \<exists>rest.
                calls_issued s s'
                  = map (ok_call Encode (deltas s)) (take k (sortedOwnedDeltaKeys s)) @ rest
                \<and> (rest = [] \<and> encode_fails Encode (deltas s) (sortedOwnedDeltaKeys s ! k) e
                    \<or> rest = [(commit_call Encode (deltas s) (sortedOwnedDeltaKeys s ! k), Some e)]))
      | None \<Rightarrow>
          calls_issued s s' = map (ok_call Encode (deltas s)) (sortedOwnedDeltaKeys s)
          \<and> (\<forall>sid\<in>set (sortedOwnedDeltaKeys s). \<forall>e. \<not> encode_fails Encode (deltas s) sid e))"
proof (cases r)
  case None
  assume c: "Commit (logged B) Encode s = (r, s')"
  with None obtain s1 where loop: "commit_loop (logged B) Encode (sortedOwnedDeltaKeys s) s = (None, s1)"
    and s': "s' = s1\<lparr>deltas := DAList.empty\<rparr>"
    by (auto simp: Commit_def Let_def split: prod.splits option.splits)
  from commit_loop_success [OF loop] s' None show ?thesis
    by (simp add: calls_issued_def base_log_def)
next
  case (Some e)
  assume c: "Commit (logged B) Encode s = (r, s')"
  with Some have loop: "commit_loop (logged B) Encode (sortedOwnedDeltaKeys s) s = (Some e, s')"
    by (auto simp: Commit_def Let_def split: prod.splits option.splits)
  from commit_loop_failure [OF loop] obtain k rest where
    "k < length (sortedOwnedDeltaKeys s)"
    "base_log s' = base_log s @ map (ok_call Encode (deltas s)) (take k (sortedOwnedDeltaKeys s)) @ rest
      \<and> (rest = [] \<and> encode_fails Encode (deltas s) (sortedOwnedDeltaKeys s ! k) e
          \<or> rest = [(commit_call Encode (deltas s) (sortedOwnedDeltaKeys s ! k), Some e)])"
    by blast
  then have "\<exists>k<length (sortedOwnedDeltaKeys s). \<exists>rest.
                calls_issued s s'
                  = map (ok_call Encode (deltas s)) (take k (sortedOwnedDeltaKeys s)) @ rest
                \<and> (rest = [] \<and> encode_fails Encode (deltas s) (sortedOwnedDeltaKeys s ! k) e
                    \<or> rest = [(commit_call Encode (deltas s) (sortedOwnedDeltaKeys s ! k), Some e)])"
    unfolding calls_issued_def by (intro exI [of _ k] exI [of _ rest]) simp
  with commit_loop_deltas [OF loop] Some show ?thesis by simp
qed

subsection \<open>Examples\<close>

lemmas ex_id_defs = ex_id1_def ex_id2_def ex_temp_def ex_owner_def AddressUndefined_def

lemmas ex_eval =
  sortedOwnedDeltaKeys_def range_keys_def DAList.update.rep_eq DAList.empty.rep_eq
  sort_Slice_def less_StorageID_def IndexAsUint64_def AddressAsUint64_def BigEndian_Uint64_def
  be_nat_def Commit_def Let_def index_or_nil_def DAList.lookup.rep_eq logged_def
  InMemBaseStorage_impl_def InMem_Store_def InMem_Remove_def base_log_def calls_issued_def
  NewPersistentSlabStorage_def NewInMemBaseStorage_def NewInMemBaseStorageFromMap_def
  len_bytes_def ex_Encode_def

lemma ex_pending_commit:
  "fst (Commit (logged InMemBaseStorage_impl) ex_Encode ex_pending) = None
   \<and> calls_issued ex_pending (snd (Commit (logged InMemBaseStorage_impl) ex_Encode ex_pending))
       = [(CallRemove ex_id1, None), (CallStore ex_id2 (Some [7]), None)]"
  by (simp add: ex_pending_def ex_storage_def ex_eval ex_id_defs)

lemma ex_bad_commit:
  "fst (Commit (logged InMemBaseStorage_impl) ex_Encode ex_bad) = Some EncodingFailed
   \<and> calls_issued ex_bad (snd (Commit (logged InMemBaseStorage_impl) ex_Encode ex_bad))
       = [(CallStore ex_id1 (Some [7]), None)]"
  by (simp add: ex_bad_def ex_storage_def ex_eval ex_id_defs)

text \<open>
  C1 on an example: the deltas hold a tombstone for \<open>ex_id1\<close>, a slab under a temporary
  handle and a slab for \<open>ex_id2\<close>, entered in the opposite order.
\<close>

theorem Commit_calls_strictly_ascending_witness:
  "map (call_id \<circ> fst)
     (calls_issued ex_pending (snd (Commit (logged InMemBaseStorage_impl) ex_Encode ex_pending)))
     = [ex_id1, ex_id2]
   \<and> sorted_wrt handle_before [ex_id1, ex_id2]"
  using Commit_calls_strictly_ascending [of ex_pending InMemBaseStorage_impl ex_Encode]
  by (simp add: ex_pending_commit)

text \<open>C5 on the same example: the slab under the temporary handle is dropped.\<close>

theorem Commit_skips_undefined_address_witness:
  "Address ex_temp = AddressUndefined
   \<and> DAList.lookup (deltas ex_pending) ex_temp = Some (Some 5)
   \<and> ex_temp \<notin> set (map (call_id \<circ> fst)
        (calls_issued ex_pending (snd (Commit (logged InMemBaseStorage_impl) ex_Encode ex_pending))))
   \<and> fst (Commit (logged InMemBaseStorage_impl) ex_Encode ex_pending) = None
   \<and> DAList.lookup (deltas (snd (Commit (logged InMemBaseStorage_impl) ex_Encode ex_pending))) ex_temp
       = None"
proof -
  have a: "Address ex_temp = AddressUndefined" by (simp add: ex_temp_def)
  have l: "DAList.lookup (deltas ex_pending) ex_temp = Some (Some 5)"
    by (simp add: ex_pending_def ex_id_defs)
  from Commit_skips_undefined_address [OF a, of ex_pending InMemBaseStorage_impl ex_Encode] a l
  show ?thesis by (simp add: ex_pending_commit)
qed

text \<open>
  C4 on an example: the slab of the second key cannot be encoded; the store of the first
  one has been made.
\<close>

theorem Commit_failure_keeps_deltas_witness:
  "fst (Commit (logged InMemBaseStorage_impl) ex_Encode ex_bad) = Some EncodingFailed
   \<and> deltas (snd (Commit (logged InMemBaseStorage_impl) ex_Encode ex_bad)) = deltas ex_bad
   \<and> calls_issued ex_bad (snd (Commit (logged InMemBaseStorage_impl) ex_Encode ex_bad))
       = [(CallStore ex_id1 (Some [7]), None)]"
proof -
  let ?c = "Commit (logged InMemBaseStorage_impl) ex_Encode ex_bad"
  have "?c = (fst ?c, snd ?c)" by simp
  from Commit_failure_keeps_deltas [OF this] show ?thesis
    by (simp add: ex_bad_commit)
qed

section \<open>FastCommit and Commit\<close>

lemma collect_results_ok:
  "\<forall>sid\<in>set arrival. snd (snd (encoder Encode ds sid)) = None \<Longrightarrow>
     \<exists>m. collect_results (map (encoder Encode ds) arrival) m0 = Inr m
       \<and> (\<forall>sid. DAList.lookup m sid
             = (if sid \<in> set arrival then Some (encoded_data Encode ds sid) else DAList.lookup m0 sid))"
proof (induction arrival arbitrary: m0)
  case Nil
  then show ?case by simp
next
  case (Cons a arrival)
  obtain data where enc: "encoder Encode ds a = (a, data, None)"
    using Cons.prems by (cases "encoder Encode ds a") (auto simp: encoder_def Let_def split: if_splits prod.splits)
  from Cons.prems have "\<forall>sid\<in>set arrival. snd (snd (encoder Encode ds sid)) = None" by simp
  from Cons.IH [OF this, of "DAList.update a data m0"] obtain m where
    m: "collect_results (map (encoder Encode ds) arrival) (DAList.update a data m0) = Inr m"
    and l: "\<forall>sid. DAList.lookup m sid
             = (if sid \<in> set arrival then Some (encoded_data Encode ds sid)
                else DAList.lookup (DAList.update a data m0) sid)"
    by blast
  have "collect_results (map (encoder Encode ds) (a # arrival)) m0 = Inr m"
    using enc m by simp
  moreover have "\<forall>sid. DAList.lookup m sid
             = (if sid \<in> set (a # arrival) then Some (encoded_data Encode ds sid) else DAList.lookup m0 sid)"
    using l enc by (auto simp: encoded_data_def DAList.lookup_update)
  ultimately show ?case by blast
qed

lemma fast_commit_loop_eq:
  "\<forall>sid\<in>set ids. index_or_nil m sid
      = (if index_or_nil (deltas s) sid = None then None
         else fst (Encode (index_or_nil (deltas s) sid))) \<Longrightarrow>
   \<forall>sid\<in>set ids. index_or_nil (deltas s) sid \<noteq> None \<longrightarrow>
          snd (Encode (index_or_nil (deltas s) sid)) = None
          \<and> fst (Encode (index_or_nil (deltas s) sid)) \<noteq> None \<Longrightarrow>
   fast_commit_loop B m ids s = commit_loop B Encode ids s"
proof (induction ids arbitrary: s)
  case Nil
  then show ?case by simp
next
  case (Cons sid ids)
  let ?slab = "index_or_nil (deltas s) sid"
  have IH: "fast_commit_loop B m ids s1 = commit_loop B Encode ids s1" if "deltas s1 = deltas s" for s1
    using Cons.IH [of s1] Cons.prems that by simp
  show ?case
  proof (cases "?slab = None")
    case True
    with Cons.prems(1) have "index_or_nil m sid = None" by simp
    with True show ?thesis
      by (auto simp: Let_def IH split: prod.splits option.splits)
  next
    case False
    obtain data err where enc: "Encode ?slab = (data, err)" by (cases "Encode ?slab")
    with False Cons.prems(2) have err: "err = None" and data: "data \<noteq> None"
      by (auto simp del: not_None_eq)
    from Cons.prems(1) have "index_or_nil m sid = (if ?slab = None then None else fst (Encode ?slab))"
      by (simp del: not_None_eq)
    with False enc have m: "index_or_nil m sid = data" by (simp del: not_None_eq)
    show ?thesis using False enc err data m
      by (auto simp: Let_def IH split: prod.splits option.splits)
  qed
qed

lemma encoder_unfold:
  "encoder Encode ds sid =
     (sid, if index_or_nil ds sid = None then None else fst (Encode (index_or_nil ds sid)),
           if index_or_nil ds sid = None then None else snd (Encode (index_or_nil ds sid)))"
  by (simp add: encoder_def Let_def split: prod.splits)

text \<open>
  C2, amended: for every worker count of at least 1 and every order in which the results
  arrive, when every pending slab of an owned key encodes without error to a slice that is
  not \<^verbatim>\<open>nil\<close>, \<open>FastCommit\<close> returns and its result is that of \<open>Commit\<close>: the same error
  value and the same storage afterwards, that is the same base storage (with a logging base
  storage, the same sequence of calls), the same cache and the same deltas.
\<close>

theorem FastCommit_eq_Commit:
  "1 \<le> numWorkers \<Longrightarrow> mset arrival = mset (sortedOwnedDeltaKeys s) \<Longrightarrow> all_encodable Encode s
     \<Longrightarrow> FastCommit B Encode numWorkers arrival s = Some (Commit B Encode s)"
proof -
  assume n: "1 \<le> numWorkers" and perm: "mset arrival = mset (sortedOwnedDeltaKeys s)"
    and enc: "all_encodable Encode s"
  let ?keys = "sortedOwnedDeltaKeys s"
  from perm have sets: "set arrival = set ?keys" by (rule mset_eq_setD)
  have ok: "\<forall>sid\<in>set ?keys. index_or_nil (deltas s) sid \<noteq> None \<longrightarrow>
          snd (Encode (index_or_nil (deltas s) sid)) = None
          \<and> fst (Encode (index_or_nil (deltas s) sid)) \<noteq> None"
    using enc by (simp add: all_encodable_def)
  then have "\<forall>sid\<in>set arrival. snd (snd (encoder Encode (deltas s) sid)) = None"
    using sets by (simp add: encoder_unfold del: not_None_eq)
  from collect_results_ok [OF this, of DAList.empty] obtain m where
    m: "collect_results (map (encoder Encode (deltas s)) arrival) DAList.empty = Inr m"
    and l: "\<forall>sid. DAList.lookup m sid
             = (if sid \<in> set arrival then Some (encoded_data Encode (deltas s) sid)
                else DAList.lookup DAList.empty sid)"
    by blast
  have "\<forall>sid\<in>set ?keys. index_or_nil m sid
      = (if index_or_nil (deltas s) sid = None then None
         else fst (Encode (index_or_nil (deltas s) sid)))"
    using l sets by (simp add: index_or_nil_def [of m] encoded_data_def encoder_unfold del: not_None_eq)
  from fast_commit_loop_eq [OF this ok]
  have "fast_commit_loop B m ?keys s = commit_loop B Encode ?keys s" .
  with m n show ?thesis
    by (simp add: FastCommit_def Commit_def Let_def split: prod.splits option.splits)
qed

lemmas ex_fast_eval = FastCommit_def encoder_def DAList.lookup_update

lemma ex_bad_keys: "sortedOwnedDeltaKeys ex_bad = [ex_id1, ex_id2]"
  by (simp add: ex_bad_def ex_storage_def ex_eval ex_id_defs)

lemma ex_pending_keys: "sortedOwnedDeltaKeys ex_pending = [ex_id1, ex_id2]"
  by (simp add: ex_pending_def ex_storage_def ex_eval ex_id_defs)

lemma ex_bad_fast:
  "FastCommit (logged InMemBaseStorage_impl) ex_Encode 1 [ex_id1, ex_id2] ex_bad
     = Some (Some EncodingFailed, ex_bad)"
  by (simp add: FastCommit_def ex_bad_keys)
     (simp add: ex_bad_def ex_storage_def encoder_def index_or_nil_def Let_def ex_Encode_def ex_id_defs)

text \<open>
  C2, as the specification states it, for every storage state: the slab of the second key
  cannot be encoded. \<open>Commit\<close> stores the first slab and then returns the error;
  \<open>FastCommit\<close> encodes every slab first and returns the error without any call on the
  base storage.
\<close>

theorem FastCommit_differs_on_encoding_failure:
  "sortedOwnedDeltaKeys ex_bad = [ex_id1, ex_id2]
   \<and> FastCommit (logged InMemBaseStorage_impl) ex_Encode 1 [ex_id1, ex_id2] ex_bad
       = Some (Some EncodingFailed, ex_bad)
   \<and> calls_issued ex_bad ex_bad = []
   \<and> calls_issued ex_bad (snd (Commit (logged InMemBaseStorage_impl) ex_Encode ex_bad))
       = [(CallStore ex_id1 (Some [7]), None)]
   \<and> FastCommit (logged InMemBaseStorage_impl) ex_Encode 1 [ex_id1, ex_id2] ex_bad
       \<noteq> Some (Commit (logged InMemBaseStorage_impl) ex_Encode ex_bad)"
proof -
  have c: "calls_issued ex_bad (snd (Commit (logged InMemBaseStorage_impl) ex_Encode ex_bad))
       = [(CallStore ex_id1 (Some [7]), None)]"
    using ex_bad_commit by simp
  have e: "calls_issued ex_bad ex_bad = []" by (simp add: calls_issued_def)
  have "snd (Commit (logged InMemBaseStorage_impl) ex_Encode ex_bad) \<noteq> ex_bad"
    using c e by auto
  then have "Some (Some EncodingFailed, ex_bad) \<noteq> Some (Commit (logged InMemBaseStorage_impl) ex_Encode ex_bad)"
    by (cases "Commit (logged InMemBaseStorage_impl) ex_Encode ex_bad") auto
  with c e ex_bad_keys ex_bad_fast show ?thesis by simp
qed

lemma ex_pending_encodable: "all_encodable ex_Encode ex_pending"
  by (simp add: all_encodable_def ex_pending_keys)
     (simp add: ex_pending_def ex_storage_def index_or_nil_def ex_Encode_def ex_id_defs)

text \<open>C2, amended, on the example with two workers and the results arriving in reverse order.\<close>

theorem FastCommit_eq_Commit_witness:
  "(1::int) \<le> 2 \<and> mset [ex_id2, ex_id1] = mset (sortedOwnedDeltaKeys ex_pending)
   \<and> all_encodable ex_Encode ex_pending
   \<and> FastCommit (logged InMemBaseStorage_impl) ex_Encode 2 [ex_id2, ex_id1] ex_pending
       = Some (Commit (logged InMemBaseStorage_impl) ex_Encode ex_pending)
   \<and> calls_issued ex_pending (snd (Commit (logged InMemBaseStorage_impl) ex_Encode ex_pending))
       = [(CallRemove ex_id1, None), (CallStore ex_id2 (Some [7]), None)]"
proof -
  have p: "mset [ex_id2, ex_id1] = mset (sortedOwnedDeltaKeys ex_pending)"
    by (simp add: ex_pending_keys)
  have n: "(1::int) \<le> 2" by simp
  from FastCommit_eq_Commit [OF n p ex_pending_encodable, of "logged InMemBaseStorage_impl"]
  show ?thesis using p ex_pending_encodable ex_pending_commit by simp
qed

section \<open>Properties of Retrieve\<close>

text \<open>
  C3: for every handle, \<open>Retrieve\<close> returns the entry of the deltas when the handle is there,
  reporting not found when that entry is the tombstone \<^verbatim>\<open>nil\<close>; otherwise the entry of the
  cache when the handle is there; otherwise it fetches the bytes from the base storage,
  decodes them, stores the decoded slab into the cache and returns it with the flag that the
  base storage gave. An error of the base storage or of the decoder is returned and nothing
  is stored into the cache. The deltas and the cache are not changed in the first two cases.
\<close>

theorem Retrieve_deltas_cache_base:
  "(DAList.lookup (deltas s) sid = Some slab
      \<longrightarrow> Retrieve B DecodeSlab sid s = ((slab, slab \<noteq> None, None), s))
   \<and> (DAList.lookup (deltas s) sid = None \<and> DAList.lookup (cache s) sid = Some slab
      \<longrightarrow> Retrieve B DecodeSlab sid s = ((slab, True, None), s))
   \<and> (DAList.lookup (deltas s) sid = None \<and> DAList.lookup (cache s) sid = None
        \<and> bs_Retrieve B sid (baseStorage s) = ((data, ok, None), b')
        \<and> DecodeSlab sid data = (slab, None)
      \<longrightarrow> Retrieve B DecodeSlab sid s
            = ((slab, ok, None), s\<lparr>baseStorage := b', cache := DAList.update sid slab (cache s)\<rparr>))
   \<and> (DAList.lookup (deltas s) sid = None \<and> DAList.lookup (cache s) sid = None
        \<and> bs_Retrieve B sid (baseStorage s) = ((data, ok, None), b')
        \<and> DecodeSlab sid data = (slab, Some e)
      \<longrightarrow> Retrieve B DecodeSlab sid s = ((slab, ok, Some e), s\<lparr>baseStorage := b'\<rparr>))
   \<and> (DAList.lookup (deltas s) sid = None \<and> DAList.lookup (cache s) sid = None
        \<and> bs_Retrieve B sid (baseStorage s) = ((data, ok, Some e), b')
      \<longrightarrow> Retrieve B DecodeSlab sid s = ((None, False, Some e), s\<lparr>baseStorage := b'\<rparr>))"
  by (simp add: Retrieve_def)

lemmas ex_retrieve_eval =
  ex_cached_def ex_storage_def NewPersistentSlabStorage_def NewInMemBaseStorage_def
  NewInMemBaseStorageFromMap_def InMem_Store_def InMem_Retrieve_def InMemBaseStorage_impl_def
  logged_def index_or_nil_def len_bytes_def ex_DecodeSlab_def ex_fresh_id_def Let_def

text \<open>
  C3 on an example: a tombstone in the deltas, a slab in the cache and a segment in the base
  storage.
\<close>

theorem Retrieve_deltas_cache_base_witness:
  "fst (Retrieve (logged InMemBaseStorage_impl) ex_DecodeSlab ex_temp ex_cached) = (None, False, None)
   \<and> fst (Retrieve (logged InMemBaseStorage_impl) ex_DecodeSlab ex_id1 ex_cached) = (Some 3, True, None)
   \<and> fst (Retrieve (logged InMemBaseStorage_impl) ex_DecodeSlab ex_id2 ex_cached) = (Some 7, True, None)
   \<and> DAList.lookup (cache (snd (Retrieve (logged InMemBaseStorage_impl) ex_DecodeSlab ex_id2 ex_cached))) ex_id2
       = Some (Some 7)"
proof -
  let ?B = "logged InMemBaseStorage_impl :: (InMemBaseStorage \<times> (base_call \<times> ex_error option) list, ex_error) BaseStorage"
  have d: "DAList.lookup (deltas ex_cached) ex_temp = Some None"
    by (simp add: ex_cached_def)
  have c: "DAList.lookup (deltas ex_cached) ex_id1 = None \<and> DAList.lookup (cache ex_cached) ex_id1 = Some (Some 3)"
    by (simp add: ex_cached_def ex_id_defs)
  obtain b' where b: "bs_Retrieve ?B ex_id2 (baseStorage ex_cached) = ((Some [7], True, None), b')"
    by (simp add: ex_retrieve_eval ex_id_defs)
  have n: "DAList.lookup (deltas ex_cached) ex_id2 = None \<and> DAList.lookup (cache ex_cached) ex_id2 = None
        \<and> bs_Retrieve ?B ex_id2 (baseStorage ex_cached) = ((Some [7], True, None), b')
        \<and> ex_DecodeSlab ex_id2 (Some [7]) = (Some 7, None)"
    using b by (simp add: ex_cached_def ex_id_defs ex_DecodeSlab_def)
  from Retrieve_deltas_cache_base [of ex_cached ex_temp None ?B ex_DecodeSlab] d
  have 1: "fst (Retrieve ?B ex_DecodeSlab ex_temp ex_cached) = (None, False, None)" by simp
  from Retrieve_deltas_cache_base [of ex_cached ex_id1 "Some 3" ?B ex_DecodeSlab] c
  have 2: "fst (Retrieve ?B ex_DecodeSlab ex_id1 ex_cached) = (Some 3, True, None)" by simp
  from Retrieve_deltas_cache_base [of ex_cached ex_id2 "Some 7" ?B ex_DecodeSlab "Some [7]" True b'] n
  have 3: "Retrieve ?B ex_DecodeSlab ex_id2 ex_cached
       = ((Some 7, True, None),
          ex_cached\<lparr>baseStorage := b', cache := DAList.update ex_id2 (Some 7) (cache ex_cached)\<rparr>)"
    by simp
  from 1 2 3 show ?thesis by simp
qed

section \<open>Absent handles and the autoCommit option\<close>

lemma InMem_Retrieve_absent:
  "DAList.lookup (segments b) sid = None \<Longrightarrow>
     fst (bs_Retrieve InMemBaseStorage_impl sid b) = (None, False, None)"
  by (simp add: InMemBaseStorage_impl_def InMem_Retrieve_def index_or_nil_def Let_def)

text \<open>
  C6 says that \<open>Retrieve\<close> of a handle that is in none of the deltas, the cache and the
  base storage reports not found and no error. The code does not test the flag that the
  base storage returns: it hands the \<^verbatim>\<open>nil\<close> data to \<open>DecodeSlab\<close> all the same. With the
  in-memory base storage, when the decoder rejects the data \<open>Retrieve\<close> returns the
  decoder's error; when the decoder accepts the data, what it returned is stored into the
  cache under the absent handle, and the next \<open>Retrieve\<close> of that handle reports it found.
\<close>

theorem Retrieve_absent_handle:
  "DAList.lookup (deltas s) sid = None \<Longrightarrow> DAList.lookup (cache s) sid = None
     \<Longrightarrow> DAList.lookup (segments (baseStorage s)) sid = None \<Longrightarrow>
   (case DecodeSlab sid None of
      (slab, Some e) \<Rightarrow>
        fst (Retrieve InMemBaseStorage_impl DecodeSlab sid s) = (slab, False, Some e)
    | (slab, None) \<Rightarrow>
        fst (Retrieve InMemBaseStorage_impl DecodeSlab sid s) = (slab, False, None)
        \<and> fst (Retrieve InMemBaseStorage_impl DecodeSlab sid
                 (snd (Retrieve InMemBaseStorage_impl DecodeSlab sid s))) = (slab, True, None))"
proof -
  assume d: "DAList.lookup (deltas s) sid = None" and c: "DAList.lookup (cache s) sid = None"
    and b: "DAList.lookup (segments (baseStorage s)) sid = None"
  obtain slab err where dec: "DecodeSlab sid None = (slab, err)" by (cases "DecodeSlab sid None")
  show ?thesis
  proof (cases err)
    case None
    with d c b dec show ?thesis
      by (simp add: Retrieve_def InMemBaseStorage_impl_def InMem_Retrieve_def index_or_nil_def
          Let_def)
  next
    case (Some e)
    with d c b dec show ?thesis
      by (simp add: Retrieve_def InMemBaseStorage_impl_def InMem_Retrieve_def index_or_nil_def
          Let_def)
  qed
qed

text \<open>
  C6 on an example: a new storage over an empty base storage, and a decoder that accepts
  one byte of data and nothing else.
\<close>

theorem Retrieve_absent_handle_witness:
  "DAList.lookup (deltas ex_plain) ex_fresh_id = None
   \<and> DAList.lookup (cache ex_plain) ex_fresh_id = None
   \<and> DAList.lookup (segments (baseStorage ex_plain)) ex_fresh_id = None
   \<and> fst (Retrieve InMemBaseStorage_impl ex_DecodeSlab ex_fresh_id ex_plain)
       = (None, False, Some DecodingFailed)"
proof -
  have h: "DAList.lookup (deltas ex_plain) ex_fresh_id = None"
    "DAList.lookup (cache ex_plain) ex_fresh_id = None"
    "DAList.lookup (segments (baseStorage ex_plain)) ex_fresh_id = None"
    by (simp_all add: ex_plain_def NewPersistentSlabStorage_def NewInMemBaseStorage_def
        NewInMemBaseStorageFromMap_def)
  from Retrieve_absent_handle [OF h, of ex_DecodeSlab] h show ?thesis
    by (simp add: ex_DecodeSlab_def)
qed

text \<open>
  C7: with \<open>autoCommit\<close> set, \<open>Store\<close> and \<open>Remove\<close> are to call the base storage
  directly and to leave the deltas unchanged. \<open>Store\<close> does: when the slab does not encode
  it returns the error and changes nothing; otherwise it makes one call on the base
  storage, the store of the encoded slab, returns its error, puts the slab into the cache
  when the call succeeded, and never touches the deltas. \<open>Remove\<close> makes one call on the
  base storage, the remove of the handle, and returns its error; but its \<open>autoCommit\<close>
  branch does not return after a successful call, and the statement that follows records
  the tombstone for the handle in the deltas. The deltas are left unchanged only when the
  call on the base storage failed.
\<close>

theorem autoCommit_Store_Remove:
  "autoCommit s \<Longrightarrow>
     (snd (Encode slab) \<noteq> None \<longrightarrow>
          Store (logged B) Encode sid slab s = (snd (Encode slab), s))
     \<and> (snd (Encode slab) = None \<longrightarrow>
          Store (logged B) Encode sid slab s
            = (let data = fst (Encode slab);
                   r = bs_Store B sid data (fst (baseStorage s));
                   s1 = s\<lparr>baseStorage :=
                          (snd r, snd (baseStorage s) @ [(CallStore sid data, fst r)])\<rparr>
               in (fst r,
                   if fst r = None then s1\<lparr>cache := DAList.update sid slab (cache s)\<rparr> else s1)))
     \<and> deltas (snd (Store (logged B) Encode sid slab s)) = deltas s
     \<and> (snd (Encode slab) = None \<longrightarrow>
          calls_issued s (snd (Store (logged B) Encode sid slab s))
            = [(CallStore sid (fst (Encode slab)),
                fst (bs_Store B sid (fst (Encode slab)) (fst (baseStorage s))))])
     \<and> Remove (logged B) sid s
          = (let r = bs_Remove B sid (fst (baseStorage s));
                 s1 = s\<lparr>baseStorage := (snd r, snd (baseStorage s) @ [(CallRemove sid, fst r)])\<rparr>
             in (fst r,
                 if fst r = None then s1\<lparr>deltas := DAList.update sid None (deltas s)\<rparr> else s1))
     \<and> calls_issued s (snd (Remove (logged B) sid s))
          = [(CallRemove sid, fst (bs_Remove B sid (fst (baseStorage s))))]
     \<and> fst (Remove (logged B) sid s) = fst (bs_Remove B sid (fst (baseStorage s)))
     \<and> deltas (snd (Remove (logged B) sid s))
          = (if fst (bs_Remove B sid (fst (baseStorage s))) = None
             then DAList.update sid None (deltas s) else deltas s)"
proof -
  assume a: "autoCommit s"
  obtain b log where bl: "baseStorage s = (b, log)" by (cases "baseStorage s")
  obtain data err where enc: "Encode slab = (data, err)" by (cases "Encode slab")
  have 1: "deltas (snd (Store (logged B) Encode sid slab s)) = deltas s"
    using a by (simp add: Store_def split: prod.splits option.splits)
  have 2: "snd (Encode slab) = None \<longrightarrow>
          calls_issued s (snd (Store (logged B) Encode sid slab s))
            = [(CallStore sid (fst (Encode slab)),
                fst (bs_Store B sid (fst (Encode slab)) (fst (baseStorage s))))]"
    using a bl enc
    by (auto simp: Store_def bs_Store_logged calls_issued_def base_log_def split: option.splits)
  have 3: "snd (Encode slab) \<noteq> None \<longrightarrow>
          Store (logged B) Encode sid slab s = (snd (Encode slab), s)"
    using a enc by (auto simp: Store_def)
  have 4: "calls_issued s (snd (Remove (logged B) sid s))
          = [(CallRemove sid, fst (bs_Remove B sid (fst (baseStorage s))))]"
    using a bl
    by (auto simp: Remove_def bs_Remove_logged calls_issued_def base_log_def split: option.splits)
  have 5: "fst (Remove (logged B) sid s) = fst (bs_Remove B sid (fst (baseStorage s)))"
    using a bl by (auto simp: Remove_def bs_Remove_logged split: option.splits)
  have 6: "deltas (snd (Remove (logged B) sid s))
          = (if fst (bs_Remove B sid (fst (baseStorage s))) = None
             then DAList.update sid None (deltas s) else deltas s)"
    using a bl by (auto simp: Remove_def bs_Remove_logged split: option.splits)
  have 7: "snd (Encode slab) = None \<longrightarrow>
          Store (logged B) Encode sid slab s
            = (let data = fst (Encode slab);
                   r = bs_Store B sid data (fst (baseStorage s));
                   s1 = s\<lparr>baseStorage :=
                          (snd r, snd (baseStorage s) @ [(CallStore sid data, fst r)])\<rparr>
               in (fst r,
                   if fst r = None then s1\<lparr>cache := DAList.update sid slab (cache s)\<rparr> else s1))"
    using a bl enc
    by (auto simp: Store_def bs_Store_logged Let_def split: option.splits)
  have 8: "Remove (logged B) sid s
          = (let r = bs_Remove B sid (fst (baseStorage s));
                 s1 = s\<lparr>baseStorage := (snd r, snd (baseStorage s) @ [(CallRemove sid, fst r)])\<rparr>
             in (fst r,
                 if fst r = None then s1\<lparr>deltas := DAList.update sid None (deltas s)\<rparr> else s1))"
    using a bl
    by (auto simp: Remove_def bs_Remove_logged Let_def split: option.splits)
  from 1 2 3 4 5 6 7 8 show ?thesis by blast
qed

lemmas ex_auto_eval =
  ex_auto_def ex_auto_removed_def ex_auto_stored_def NewPersistentSlabStorage_def
  WithAutoCommit_def Remove_def Store_def Retrieve_def logged_def InMemBaseStorage_impl_def
  InMem_Remove_def InMem_Store_def InMem_Retrieve_def NewInMemBaseStorage_def
  NewInMemBaseStorageFromMap_def ex_Encode_def ex_DecodeSlab_def len_bytes_def Let_def

text \<open>
  What the tombstone does on a new storage with the option set: after \<open>Remove\<close> of a handle
  and \<open>Store\<close> of a slab under the same handle, both successful, the base storage and the
  cache hold the slab, yet \<open>Retrieve\<close> reports the handle not found; and a \<open>Commit\<close> made
  then removes the stored segment from the base storage.
\<close>

lemma autoCommit_Remove_then_Store_not_found:
  "autoCommit ex_auto
   \<and> DAList.lookup (deltas ex_auto) ex_id1 = None
   \<and> fst (Remove (logged InMemBaseStorage_impl) ex_id1 ex_auto) = None
   \<and> DAList.lookup (deltas ex_auto_removed) ex_id1 = Some None
   \<and> fst (Store (logged InMemBaseStorage_impl) ex_Encode ex_id1 (Some 7) ex_auto_removed) = None
   \<and> DAList.lookup (segments (fst (baseStorage ex_auto_stored))) ex_id1 = Some (Some [7])
   \<and> DAList.lookup (cache ex_auto_stored) ex_id1 = Some (Some 7)
   \<and> fst (Retrieve (logged InMemBaseStorage_impl) ex_DecodeSlab ex_id1 ex_auto_stored)
       = (None, False, None)
   \<and> calls_issued ex_auto_stored
        (snd (Commit (logged InMemBaseStorage_impl) ex_Encode ex_auto_stored))
       = [(CallRemove ex_id1, None)]"
  by (simp add: ex_auto_eval ex_eval ex_id_defs DAList.delete.rep_eq)

text \<open>
  C7 on a new storage with the option set: \<open>Store\<close> leaves the deltas as they were,
  \<open>Remove\<close> leaves a tombstone in them.
\<close>

theorem autoCommit_Store_Remove_witness:
  "autoCommit ex_auto
   \<and> deltas (snd (Store (logged InMemBaseStorage_impl) ex_Encode ex_id1 (Some 7) ex_auto))
       = deltas ex_auto
   \<and> DAList.lookup (cache (snd (Store (logged InMemBaseStorage_impl) ex_Encode ex_id1 (Some 7) ex_auto)))
        ex_id1 = Some (Some 7)
   \<and> calls_issued ex_auto (snd (Store (logged InMemBaseStorage_impl) ex_Encode ex_id1 (Some 7) ex_auto))
       = [(CallStore ex_id1 (Some [7]), None)]
   \<and> calls_issued ex_auto (snd (Remove (logged InMemBaseStorage_impl) ex_id1 ex_auto))
       = [(CallRemove ex_id1, None)]
   \<and> fst (Remove (logged InMemBaseStorage_impl) ex_id1 ex_auto) = None
   \<and> DAList.lookup (deltas ex_auto) ex_id1 = None
   \<and> deltas (snd (Remove (logged InMemBaseStorage_impl) ex_id1 ex_auto))
       = DAList.update ex_id1 None (deltas ex_auto)
   \<and> DAList.lookup (deltas (snd (Remove (logged InMemBaseStorage_impl) ex_id1 ex_auto))) ex_id1
       = Some None"
proof -
  have a: "autoCommit ex_auto"
    by (simp add: ex_auto_def NewPersistentSlabStorage_def WithAutoCommit_def)
  have e: "ex_Encode (Some 7) = (Some [7], None)" by (simp add: ex_Encode_def)
  have s: "fst (bs_Store InMemBaseStorage_impl ex_id1 (Some [7]) (fst (baseStorage ex_auto)))
      = (None :: ex_error option)"
    by (simp add: InMemBaseStorage_impl_def InMem_Store_def)
  have r: "fst (bs_Remove InMemBaseStorage_impl ex_id1 (fst (baseStorage ex_auto)))
      = (None :: ex_error option)"
    by (simp add: InMemBaseStorage_impl_def InMem_Remove_def)
  have d: "DAList.lookup (deltas ex_auto) ex_id1 = None"
    by (simp add: ex_auto_def NewPersistentSlabStorage_def WithAutoCommit_def)
  from autoCommit_Store_Remove [of ex_auto ex_Encode "Some 7" InMemBaseStorage_impl ex_id1]
  show ?thesis using a e s r d by (simp add: Let_def calls_issued_def base_log_def)
qed

section \<open>Properties of Count\<close>

lemma apply_op_no_autoCommit:
  "\<not> autoCommit s \<Longrightarrow>
     fst (apply_op B Encode op s) = None
     \<and> baseStorage (snd (apply_op B Encode op s)) = baseStorage s
     \<and> \<not> autoCommit (snd (apply_op B Encode op s))"
  by (cases op) (simp_all add: Store_def Remove_def)

lemma apply_ops_no_autoCommit:
  "\<not> autoCommit s \<Longrightarrow>
     baseStorage (snd (apply_ops B Encode ops s)) = baseStorage s
     \<and> fst (apply_ops B Encode ops s) = replicate (length ops) None"
proof (induction ops arbitrary: s)
  case Nil
  then show ?case by simp
next
  case (Cons op ops)
  from apply_op_no_autoCommit [OF Cons.prems, of B Encode op]
  have 1: "fst (apply_op B Encode op s) = None"
    and 2: "baseStorage (snd (apply_op B Encode op s)) = baseStorage s"
    and 3: "\<not> autoCommit (snd (apply_op B Encode op s))"
    by simp_all
  from Cons.IH [OF 3] 1 2 show ?case
    by (simp add: split_beta)
qed

text \<open>
  C10: \<open>Count\<close> is the segment count of the base storage, for the in-memory base storage the
  number of stored segments. With \<open>autoCommit\<close> unset, every sequence of \<open>Store\<close> and
  \<open>Remove\<close> calls leaves the base storage, and so the result of \<open>Count\<close>, unchanged.
\<close>

theorem Count_ignores_pending_deltas:
  "\<not> autoCommit s \<Longrightarrow>
     Count (B :: ('b, 'e) BaseStorage) (snd (apply_ops B Encode ops s)) = Count B s
     \<and> Count B s = bs_SegmentCounts B (baseStorage s)
     \<and> baseStorage (snd (apply_ops B Encode ops s)) = baseStorage s
     \<and> Count (InMemBaseStorage_impl :: (InMemBaseStorage, 'e) BaseStorage) s0
          = int (length (DAList.impl_of (segments (baseStorage s0))))"
  using apply_ops_no_autoCommit [of s B Encode ops]
  by (simp add: Count_def InMemBaseStorage_impl_def InMem_SegmentCounts_def)

lemma ex_committed_eval:
  "\<not> autoCommit ex_committed
   \<and> DAList.impl_of (segments (baseStorage ex_committed)) = [(ex_id1, Some [7])]"
  by (simp add: ex_committed_def ex_plain_def ex_eval ex_id_defs)

text \<open>
  C10 on an example: one committed segment, then a pending store and a pending remove of the
  committed handle.
\<close>

theorem Count_ignores_pending_deltas_witness:
  "\<not> autoCommit ex_committed
   \<and> Count (InMemBaseStorage_impl :: (InMemBaseStorage, ex_error) BaseStorage) ex_committed = 1
   \<and> Count (InMemBaseStorage_impl :: (InMemBaseStorage, ex_error) BaseStorage)
       (snd (apply_ops InMemBaseStorage_impl ex_Encode
               [OpStore ex_id2 (Some 5), OpRemove ex_id1] ex_committed)) = 1
   \<and> DAList.lookup
        (deltas (snd (apply_ops (InMemBaseStorage_impl :: (InMemBaseStorage, ex_error) BaseStorage)
               ex_Encode [OpStore ex_id2 (Some 5), OpRemove ex_id1] ex_committed))) ex_id1
       = Some None"
proof -
  let ?B = "InMemBaseStorage_impl :: (InMemBaseStorage, ex_error) BaseStorage"
  have a: "\<not> autoCommit ex_committed" using ex_committed_eval by simp
  have d: "DAList.lookup
        (deltas (snd (apply_ops ?B ex_Encode [OpStore ex_id2 (Some 5), OpRemove ex_id1] ex_committed)))
        ex_id1 = Some None"
    using a by (simp add: Store_def Remove_def)
  from Count_ignores_pending_deltas [OF a, of ?B ex_Encode
      "[OpStore ex_id2 (Some 5), OpRemove ex_id1]" ex_committed]
  have "Count ?B (snd (apply_ops ?B ex_Encode [OpStore ex_id2 (Some 5), OpRemove ex_id1] ex_committed))
      = Count ?B ex_committed"
    and "Count ?B ex_committed = int (length (DAList.impl_of (segments (baseStorage ex_committed))))"
    by (simp_all del: apply_ops.simps)
  then show ?thesis using a d ex_committed_eval by (simp del: apply_ops.simps)
qed

section \<open>Properties of GenerateStorageID\<close>

lemma GenerateStorageID_step:
  "GenerateStorageID InMemBaseStorage_impl a s = (r, s1) \<Longrightarrow>
     r = (StorageID a (BigEndian_PutUint64 (allocation_counter s a + 1)), None)
     \<and> allocation_counter s1 a = allocation_counter s a + 1
     \<and> (\<forall>b. b \<noteq> a \<longrightarrow> allocation_counter s1 b = allocation_counter s b)"
proof (cases "a = AddressUndefined")
  case True
  assume "GenerateStorageID InMemBaseStorage_impl a s = (r, s1)"
  with True show ?thesis
    by (auto simp: GenerateStorageID_def Let_def NewStorageID_def allocation_counter_def)
next
  case False
  assume g: "GenerateStorageID InMemBaseStorage_impl a s = (r, s1)"
  let ?index = "case DAList.lookup (storageIndex (baseStorage s)) a of
                  None \<Rightarrow> StorageIndexUndefined | Some i \<Rightarrow> i"
  have n: "BigEndian_Uint64 (Next ?index) = BigEndian_Uint64 ?index + 1"
    by (simp add: Next_def Let_def Uint64_PutUint64)
  from g False have r: "r = (StorageID a (Next ?index), None)"
    and s1: "s1 = s\<lparr>baseStorage := (baseStorage s)\<lparr>storageIndex :=
        DAList.update a (Next ?index) (storageIndex (baseStorage s))\<rparr>\<rparr>"
    by (auto simp: GenerateStorageID_def InMemBaseStorage_impl_def InMem_GenerateStorageID_def
        Let_def NewStorageID_def)
  have "Next ?index = BigEndian_PutUint64 (allocation_counter s a + 1)"
    using False by (simp add: Next_def Let_def allocation_counter_def)
  with r s1 n False show ?thesis
    by (auto simp: allocation_counter_def)
qed

lemma IndexAsUint64_PutUint64: "IndexAsUint64 (StorageID a (BigEndian_PutUint64 v)) = v"
  by (simp add: IndexAsUint64_def Uint64_PutUint64)

lemma unat_Suc_no_overflow:
  fixes c :: uint64
  shows "unat c + 1 < 2 ^ 64 \<Longrightarrow> unat (c + 1) = unat c + 1"
  by (simp add: unat_word_ariths)

lemma allocate_all_props:
  "\<forall>a\<in>set as. unat (allocation_counter s a) + count_list as a < 2 ^ 64 \<Longrightarrow>
     (let rs = fst (allocate_all as s :: (StorageID \<times> 'e option) list \<times> _) in
      map snd rs = replicate (length as) None
      \<and> map (Address \<circ> fst) rs = as
      \<and> (\<forall>x\<in>set (map fst rs). unat (allocation_counter s (Address x)) < unat (IndexAsUint64 x))
      \<and> sorted_wrt same_address_ascending (map fst rs))"
proof (induction as arbitrary: s)
  case Nil
  then show ?case by simp
next
  case (Cons a as)
  define g where "g = (GenerateStorageID InMemBaseStorage_impl a s
     :: (StorageID \<times> 'e option) \<times> _)"
  define r where "r = fst (fst g)"
  define s1 where "s1 = snd g"
  have gs: "GenerateStorageID InMemBaseStorage_impl a s = ((r, snd (fst g)), s1)"
    by (simp add: g_def r_def s1_def)
  from GenerateStorageID_step [OF gs]
  have e: "snd (fst g) = None"
    and r: "r = StorageID a (BigEndian_PutUint64 (allocation_counter s a + 1))"
    and ca: "allocation_counter s1 a = allocation_counter s a + 1"
    and cb: "\<forall>b. b \<noteq> a \<longrightarrow> allocation_counter s1 b = allocation_counter s b"
    by simp_all
  from Cons.prems have bound: "unat (allocation_counter s a) + 1 + count_list as a < 2 ^ 64"
    by simp
  then have ua: "unat (allocation_counter s1 a) = unat (allocation_counter s a) + 1"
    using ca unat_Suc_no_overflow [of "allocation_counter s a"] by simp
  have pre: "\<forall>b\<in>set as. unat (allocation_counter s1 b) + count_list as b < 2 ^ 64"
  proof
    fix b assume b: "b \<in> set as"
    show "unat (allocation_counter s1 b) + count_list as b < 2 ^ 64"
    proof (cases "b = a")
      case True
      with ua bound show ?thesis by simp
    next
      case False
      from Cons.prems b have "unat (allocation_counter s b) + count_list (a # as) b < 2 ^ 64"
        by simp
      with False cb show ?thesis by simp
    qed
  qed
  define rest where "rest = fst (allocate_all as s1 :: (StorageID \<times> 'e option) list \<times> _)"
  from Cons.IH [OF pre]
  have ih1: "map snd rest = replicate (length as) None"
    and ih2: "map (Address \<circ> fst) rest = as"
    and ih3: "\<forall>x\<in>set (map fst rest). unat (allocation_counter s1 (Address x)) < unat (IndexAsUint64 x)"
    and ih4: "sorted_wrt same_address_ascending (map fst rest)"
    by (simp_all add: Let_def rest_def comp_def)
  have all: "fst (allocate_all (a # as) s :: (StorageID \<times> 'e option) list \<times> _) = (r, None) # rest"
    using gs e by (simp add: split_beta rest_def)
  have ir: "IndexAsUint64 r = allocation_counter s a + 1" "Address r = a"
    using r by (simp_all add: IndexAsUint64_PutUint64)
  have lower: "\<forall>x\<in>set (map fst rest). unat (allocation_counter s (Address x)) < unat (IndexAsUint64 x)"
  proof
    fix x assume x: "x \<in> set (map fst rest)"
    with ih3 have l: "unat (allocation_counter s1 (Address x)) < unat (IndexAsUint64 x)" by blast
    show "unat (allocation_counter s (Address x)) < unat (IndexAsUint64 x)"
    proof (cases "Address x = a")
      case True
      with l ua show ?thesis by simp
    next
      case False
      with l cb show ?thesis by simp
    qed
  qed
  have first: "\<forall>x\<in>set (map fst rest). same_address_ascending r x"
  proof
    fix x assume x: "x \<in> set (map fst rest)"
    with ih3 have l: "unat (allocation_counter s1 (Address x)) < unat (IndexAsUint64 x)" by blast
    show "same_address_ascending r x"
      using l ir ca by (auto simp: same_address_ascending_def word_less_nat_alt)
  qed
  have r_lower: "unat (allocation_counter s (Address r)) < unat (IndexAsUint64 r)"
    using ir ua ca by simp
  from ih1 ih2 ih4 ir lower first r_lower show ?case
    unfolding Let_def all by (simp add: comp_def)
qed

lemma sorted_wrt_irrefl_distinct:
  "sorted_wrt P xs \<Longrightarrow> (\<forall>x. \<not> P x x) \<Longrightarrow> distinct xs"
  by (induction xs) auto

text \<open>
  C9, amended: over the in-memory base storage, for every sequence of addresses such that no
  counter passes \<open>2^64 - 1\<close> (the counter of an address plus the number of allocations asked
  for that address stays below \<open>2^64\<close>), the allocations return no error, each handle
  carries the address asked for, among the handles of one address the indices are strictly
  increasing in the order of the calls, and no handle is returned twice. The undefined
  address is served from \<open>tempStorageIndex\<close>, every other address from the base storage.
\<close>

theorem allocations_fresh_until_overflow:
  "\<forall>a\<in>set as. unat (allocation_counter s a) + count_list as a < 2 ^ 64 \<Longrightarrow>
     (let rs = fst (allocate_all as s) in
      map snd rs = replicate (length as) None
      \<and> map (Address \<circ> fst) rs = as
      \<and> sorted_wrt same_address_ascending (map fst rs)
      \<and> distinct (map fst rs))"
proof -
  assume h: "\<forall>a\<in>set as. unat (allocation_counter s a) + count_list as a < 2 ^ 64"
  have irr: "\<forall>x. \<not> same_address_ascending x x" by (simp add: same_address_ascending_def)
  from allocate_all_props [OF h] show ?thesis
    unfolding Let_def using irr sorted_wrt_irrefl_distinct [of same_address_ascending] by blast
qed

lemmas ex_alloc_eval =
  GenerateStorageID_def InMemBaseStorage_impl_def InMem_GenerateStorageID_def Let_def
  NewStorageID_def Next_def BigEndian_PutUint64_def BigEndian_Uint64_def be_nat_def byte_at_def
  StorageIndexUndefined_def NewPersistentSlabStorage_def NewInMemBaseStorage_def
  NewInMemBaseStorageFromMap_def ex_plain_def ex_wrap_def DAList.lookup_update

lemma ex_wrap_allocations:
  "map fst (fst (allocate_all [AddressUndefined, AddressUndefined, ex_owner] ex_wrap
                   :: (StorageID \<times> ex_error option) list \<times> _))
     = [StorageID AddressUndefined (Bytes8 255 255 255 255 255 255 255 255),
        StorageID AddressUndefined (Bytes8 0 0 0 0 0 0 0 0),
        StorageID ex_owner (Bytes8 0 0 0 0 0 0 0 0)]"
  by (simp add: ex_alloc_eval ex_id_defs)

text \<open>
  C9, as the specification states it, for every state: the counters are \<^verbatim>\<open>uint64\<close> values
  and the increment wraps around. From a state whose temporary counter is \<open>2^64 - 2\<close> two
  allocations for the undefined address return the indices \<open>2^64 - 1\<close> and then 0; from a
  state whose counter for an owned address is \<open>2^64 - 1\<close> the allocation returns index 0.
\<close>

theorem allocation_counter_wraps:
  "allocation_counter ex_wrap AddressUndefined = 0xFFFFFFFFFFFFFFFE
   \<and> allocation_counter ex_wrap ex_owner = 0xFFFFFFFFFFFFFFFF
   \<and> map fst (fst (allocate_all [AddressUndefined, AddressUndefined, ex_owner] ex_wrap
                   :: (StorageID \<times> ex_error option) list \<times> (nat, InMemBaseStorage) PersistentSlabStorage))
     = [StorageID AddressUndefined (Bytes8 255 255 255 255 255 255 255 255),
        StorageID AddressUndefined (Bytes8 0 0 0 0 0 0 0 0),
        StorageID ex_owner (Bytes8 0 0 0 0 0 0 0 0)]
   \<and> IndexAsUint64 (StorageID AddressUndefined (Bytes8 0 0 0 0 0 0 0 0))
       < IndexAsUint64 (StorageID AddressUndefined (Bytes8 255 255 255 255 255 255 255 255))
   \<and> IndexAsUint64 (StorageID ex_owner (Bytes8 0 0 0 0 0 0 0 0))
       < allocation_counter ex_wrap ex_owner"
proof -
  have 1: "allocation_counter ex_wrap AddressUndefined = 0xFFFFFFFFFFFFFFFE"
    by (simp add: allocation_counter_def ex_wrap_def)
  have 2: "allocation_counter ex_wrap ex_owner = 0xFFFFFFFFFFFFFFFF"
    by (simp add: allocation_counter_def ex_wrap_def ex_id_defs NewInMemBaseStorage_def
        NewInMemBaseStorageFromMap_def BigEndian_Uint64_def be_nat_def)
  have 3: "IndexAsUint64 (StorageID AddressUndefined (Bytes8 0 0 0 0 0 0 0 0))
       < IndexAsUint64 (StorageID AddressUndefined (Bytes8 255 255 255 255 255 255 255 255))"
    by (simp add: IndexAsUint64_def BigEndian_Uint64_def be_nat_def)
  have 4: "IndexAsUint64 (StorageID ex_owner (Bytes8 0 0 0 0 0 0 0 0)) = 0"
    by (simp add: IndexAsUint64_def BigEndian_Uint64_def be_nat_def)
  from 1 2 3 4 ex_wrap_allocations show ?thesis by simp
qed

text \<open>C9, amended, on a new storage.\<close>

theorem allocations_fresh_until_overflow_witness:
  "unat (allocation_counter ex_plain ex_owner)
      + count_list [ex_owner, AddressUndefined, ex_owner] ex_owner < 2 ^ 64
   \<and> unat (allocation_counter ex_plain AddressUndefined)
      + count_list [ex_owner, AddressUndefined, ex_owner] AddressUndefined < 2 ^ 64
   \<and> map fst (fst (allocate_all [ex_owner, AddressUndefined, ex_owner] ex_plain
                     :: (StorageID \<times> ex_error option) list \<times> (nat, InMemBaseStorage) PersistentSlabStorage))
       = [ex_id1, ex_temp, ex_id2]
   \<and> distinct [ex_id1, ex_temp, ex_id2]
   \<and> sorted_wrt same_address_ascending [ex_id1, ex_temp, ex_id2]
   \<and> IndexAsUint64 ex_id1 < IndexAsUint64 ex_id2"
proof -
  have c: "allocation_counter ex_plain AddressUndefined = 0 \<and> allocation_counter ex_plain ex_owner = 0"
    by (simp add: allocation_counter_def ex_plain_def NewPersistentSlabStorage_def
        NewInMemBaseStorage_def NewInMemBaseStorageFromMap_def StorageIndexUndefined_def
        BigEndian_Uint64_def be_nat_def ex_id_defs)
  have h: "\<forall>a\<in>set [ex_owner, AddressUndefined, ex_owner].
      unat (allocation_counter ex_plain a) + count_list [ex_owner, AddressUndefined, ex_owner] a < 2 ^ 64"
    using c by simp
  have e: "map fst (fst (allocate_all [ex_owner, AddressUndefined, ex_owner] ex_plain
                     :: (StorageID \<times> ex_error option) list \<times> _))
       = [ex_id1, ex_temp, ex_id2]"
    by (simp add: ex_alloc_eval ex_id_defs)
  have i: "IndexAsUint64 ex_id1 < IndexAsUint64 ex_id2"
    by (simp add: IndexAsUint64_def BigEndian_Uint64_def be_nat_def ex_id_defs)
  from allocations_fresh_until_overflow [OF h, where ?'b = ex_error] e h i show ?thesis
    by (simp add: Let_def del: allocate_all.simps)
qed

section \<open>Properties of the digester\<close>

text \<open>
  C8, as the specification states it: for a successfully built default digester and a level
  of at least 4, \<open>Digest\<close> returns the zero digest without failing. The code does not do
  this: the first statement of \<open>Digest\<close> rejects every level that is not below
  \<open>Levels\<close>, which is 4. The digester built from the example parameters returns a hash
  level error at level 4.
\<close>

theorem Digest_level_4_fails:
  "build_Digest ex_hash64 ex_hip ex_pooled ex_builder 9 = (Some ex_digester, None)
   \<and> snd (fst (Digest ex_blake3 4 ex_digester :: (Digest \<times> unit digest_error option) \<times> basicDigester))
       = Some (HashLevelError 4 4)"
  by (simp add: build_Digest_def ex_hash64_def ex_hip_def ex_pooled_def ex_builder_def
      ex_digester_def SetSeed_def newBasicDigesterBuilder_def Digest_def Levels_def len_bytes_def)

text \<open>
  C8, amended: for every digester and every level of at least 4, \<open>Digest\<close> returns the
  digest value 0 together with a hash level error that names the level and the number of
  levels, and leaves the digester as it was. The branch that returns zero without an error
  is never reached.
\<close>

theorem Digest_level_ge_4:
  "4 \<le> level \<Longrightarrow> Digest blake3_Sum256 level bd = ((0, Some (HashLevelError level 4)), bd)"
  by (simp add: Digest_def Levels_def)

text \<open>C8, amended, on the digester built from the example parameters, at level 7.\<close>

theorem Digest_level_ge_4_witness:
  "(4::nat) \<le> 7 \<and>
   (Digest ex_blake3 7 ex_digester :: (Digest \<times> unit digest_error option) \<times> basicDigester)
     = ((0, Some (HashLevelError 7 4)), ex_digester)"
  using Digest_level_ge_4 [of 7 ex_blake3 ex_digester] by simp

end
